theory Spec2Isabelle
  imports Complex_Main
begin

section \<open>Errors and Python primitives\<close>

text \<open>
  Every failure of the modelled functions is a Python exception. The gluing functions
  raise \<^verbatim>\<open>ValueError\<close> with one of five messages; dictionary and list lookups raise
  \<^verbatim>\<open>KeyError\<close> and \<^verbatim>\<open>IndexError\<close>. The constructor \<open>NoValidGrouping\<close> carries the
  attempt count of its message and the exception it was raised \<^verbatim>\<open>from\<close>.
\<close>

datatype error =
    RanOutOfDistricts
  | CannotExpand int
  | NotContiguous int
  | CannotSatisfyRemaining
  | NoValidGrouping nat error
  | KeyError int
  | IndexError

text \<open>Python list indexing: a negative index counts from the end, anything else out of
  range raises \<^verbatim>\<open>IndexError\<close>.\<close>

definition py_index :: "'a list \<Rightarrow> int \<Rightarrow> error + 'a" where
  "py_index xs i =
     (if 0 \<le> i \<and> i < int (length xs) then Inr (xs ! nat i)
      else if i < 0 \<and> - int (length xs) \<le> i then Inr (xs ! nat (int (length xs) + i))
      else Inl IndexError)"

text \<open>Python's built-in \<^verbatim>\<open>round\<close> of a float with no digits argument: the nearest
  integer, a tie going to the even neighbour.\<close>

definition py_round :: "real \<Rightarrow> int" where
  "py_round x =
     (let f = \<lfloor>x\<rfloor>; d = x - of_int f
      in if d < 1 / 2 then f
         else if 1 / 2 < d then f + 1
         else if even f then f else f + 1)"

section \<open>District adjacency from precinct adjacency\<close>

text \<open>
  A Python \<^verbatim>\<open>set\<close> of ids is modelled by the list of its members, without repetition and
  in ascending order. \<^verbatim>\<open>s.add(x)\<close> is \<^const>\<open>insort_insert\<close>, \<^verbatim>\<open>s.remove(x)\<close> of a member is
  \<^const>\<open>remove1\<close>. The order in which a set is enumerated is not fixed by the language:
  CPython enumerates in the order of its hash table, which depends on the history of
  insertions, so index \<open>k\<close> of \<^verbatim>\<open>list(s)\<close> need not be the \<open>k\<close>-th smallest member. The
  properties of the gluing engine do not depend on which member a draw picks: they hold for
  every random source.

  A dictionary that the code only reads by key is a map; one that it iterates over is the
  list of its items. The district adjacency is a \<^verbatim>\<open>defaultdict(set)\<close>: a map from district
  id to neighbour set, in which a key exists only once it has been subscripted.
\<close>

type_synonym district_adj = "int \<rightharpoonup> int list"

text \<open>\<^verbatim>\<open>district_adj.get(d, set())\<close>, the way every reader of the adjacency looks a district up.\<close>

definition adj_get :: "district_adj \<Rightarrow> int \<Rightarrow> int list" where
  "adj_get district_adj d = (case district_adj d of None \<Rightarrow> [] | Some ns \<Rightarrow> ns)"

text \<open>\<^verbatim>\<open>district_adj[a].add(b)\<close>: the subscript creates the key.\<close>

definition adj_add :: "district_adj \<Rightarrow> int \<Rightarrow> int \<Rightarrow> district_adj" where
  "adj_add district_adj a b = district_adj(a \<mapsto> insort_insert b (adj_get district_adj a))"

text \<open>\<^verbatim>\<open>assignment[k]\<close> on the plain dictionary \<open>assignment\<close>.\<close>

definition subscript :: "(int \<times> int) list \<Rightarrow> int \<Rightarrow> error + int" where
  "subscript assignment k =
     (case map_of assignment k of None \<Rightarrow> Inl (KeyError k) | Some v \<Rightarrow> Inr v)"

text \<open>The inner loop of \<^verbatim>\<open>build_district_adjacency\<close>, over the neighbours of one precinct.\<close>

fun lift_neighbors ::
  "(int \<times> int) list \<Rightarrow> int \<Rightarrow> district_adj \<Rightarrow> int list \<Rightarrow> error + district_adj"
where
  "lift_neighbors assignment my_district district_adj [] = Inr district_adj"
| "lift_neighbors assignment my_district district_adj (neighbor # rest) =
     (case subscript assignment neighbor of
        Inl e \<Rightarrow> Inl e
      | Inr neighbor_district \<Rightarrow>
          lift_neighbors assignment my_district
            (if my_district \<noteq> neighbor_district
             then adj_add (adj_add district_adj my_district neighbor_district)
                    neighbor_district my_district
             else district_adj)
            rest)"

text \<open>The outer loop, over \<^verbatim>\<open>precinct_adj.items()\<close>.\<close>

fun lift_precincts ::
  "(int \<times> int list) list \<Rightarrow> (int \<times> int) list \<Rightarrow> district_adj \<Rightarrow> error + district_adj"
where
  "lift_precincts [] assignment district_adj = Inr district_adj"
| "lift_precincts ((precinct, neighbors) # rest) assignment district_adj =
     (case subscript assignment precinct of
        Inl e \<Rightarrow> Inl e
      | Inr my_district \<Rightarrow>
          (case lift_neighbors assignment my_district district_adj neighbors of
             Inl e \<Rightarrow> Inl e
           | Inr district_adj' \<Rightarrow> lift_precincts rest assignment district_adj'))"

definition build_district_adjacency ::
  "(int \<times> int list) list \<Rightarrow> (int \<times> int) list \<Rightarrow> error + district_adj"
where
  "build_district_adjacency precinct_adj assignment =
     lift_precincts precinct_adj assignment Map.empty"

section \<open>Contiguity\<close>

text \<open>The \<^verbatim>\<open>for neighbor in district_adj.get(current, set())\<close> loop of \<^verbatim>\<open>is_connected\<close>,
  threading the visited set and the queue.\<close>

fun visit_neighbors :: "int list \<Rightarrow> int list \<Rightarrow> int list \<Rightarrow> int list \<Rightarrow> int list \<times> int list" where
  "visit_neighbors districts visited queue [] = (visited, queue)"
| "visit_neighbors districts visited queue (neighbor # rest) =
     (if neighbor \<in> set districts \<and> neighbor \<notin> set visited
      then visit_neighbors districts (insort_insert neighbor visited) (queue @ [neighbor]) rest
      else visit_neighbors districts visited queue rest)"

lemma visit_neighbors_measure:
  "visit_neighbors districts visited queue ns = (visited', queue') \<Longrightarrow>
   card (set districts - set visited') + length queue'
     = card (set districts - set visited) + length queue"
proof (induction ns arbitrary: visited queue)
  case Nil
  then show ?case by simp
next
  case (Cons n ns)
  show ?case
  proof (cases "n \<in> set districts \<and> n \<notin> set visited")
    case True
    with Cons.prems have
      "visit_neighbors districts (insort_insert n visited) (queue @ [n]) ns = (visited', queue')"
      by simp
    from Cons.IH [OF this] have
      "card (set districts - set visited') + length queue'
         = card (set districts - insert n (set visited)) + Suc (length queue)"
      by (simp add: set_insort_insert)
    moreover have "n \<in> set districts - set visited" using True by simp
    then have "card (set districts - insert n (set visited)) + 1
         = card (set districts - set visited)"
      by (metis Diff_insert List.finite_set Suc_eq_plus1 card_Suc_Diff1 finite_Diff)
    ultimately show ?thesis by simp
  next
    case False
    with Cons.prems have "visit_neighbors districts visited queue ns = (visited', queue')"
      by auto
    from Cons.IH [OF this] show ?thesis .
  qed
qed

text \<open>The \<^verbatim>\<open>while queue\<close> loop: the head of the queue is popped and its neighbours visited.
  Each round either shortens the queue or visits a new district.\<close>

function bfs :: "district_adj \<Rightarrow> int list \<Rightarrow> int list \<Rightarrow> int list \<Rightarrow> int list" where
  "bfs district_adj districts visited [] = visited"
| "bfs district_adj districts visited (current # queue) =
     (case visit_neighbors districts visited queue (adj_get district_adj current) of
        (visited', queue') \<Rightarrow> bfs district_adj districts visited' queue')"
  by pat_completeness auto
termination
proof (relation "measure (\<lambda>(district_adj, districts, visited, queue).
    card (set districts - set visited) + length queue)", goal_cases)
  case 1
  show ?case by simp
next
  case 2
  from visit_neighbors_measure [OF 2(1) [symmetric]] show ?case by simp
qed

definition is_connected :: "int list \<Rightarrow> district_adj \<Rightarrow> bool" where
  "is_connected districts district_adj =
     (case districts of
        [] \<Rightarrow> True
      | start # _ \<Rightarrow> length (bfs district_adj districts [start] [start]) = length districts)"

section \<open>Feasibility of the remaining targets\<close>

text \<open>The same search inside \<^verbatim>\<open>can_satisfy_remaining\<close>, which also collects the component.\<close>

fun visit_unused ::
  "int list \<Rightarrow> int list \<Rightarrow> int list \<Rightarrow> int list \<Rightarrow> int list \<Rightarrow> int list \<times> int list \<times> int list"
where
  "visit_unused unused visited component queue [] = (visited, component, queue)"
| "visit_unused unused visited component queue (neighbor # rest) =
     (if neighbor \<in> set unused \<and> neighbor \<notin> set visited
      then visit_unused unused (insort_insert neighbor visited)
             (insort_insert neighbor component) (queue @ [neighbor]) rest
      else visit_unused unused visited component queue rest)"

lemma visit_unused_measure:
  "visit_unused unused visited component queue ns = (visited', component', queue') \<Longrightarrow>
   card (set unused - set visited') + length queue'
     = card (set unused - set visited) + length queue"
proof (induction ns arbitrary: visited component queue)
  case Nil
  then show ?case by simp
next
  case (Cons n ns)
  show ?case
  proof (cases "n \<in> set unused \<and> n \<notin> set visited")
    case True
    with Cons.prems have
      "visit_unused unused (insort_insert n visited) (insort_insert n component)
         (queue @ [n]) ns = (visited', component', queue')"
      by simp
    from Cons.IH [OF this] have
      "card (set unused - set visited') + length queue'
         = card (set unused - insert n (set visited)) + Suc (length queue)"
      by (simp add: set_insort_insert)
    moreover have "n \<in> set unused - set visited" using True by simp
    then have "card (set unused - insert n (set visited)) + 1
         = card (set unused - set visited)"
      by (metis Diff_insert List.finite_set Suc_eq_plus1 card_Suc_Diff1 finite_Diff)
    ultimately show ?thesis by simp
  next
    case False
    with Cons.prems have
      "visit_unused unused visited component queue ns = (visited', component', queue')"
      by auto
    from Cons.IH [OF this] show ?thesis .
  qed
qed

function component_bfs ::
  "district_adj \<Rightarrow> int list \<Rightarrow> int list \<Rightarrow> int list \<Rightarrow> int list \<Rightarrow> int list \<times> int list"
where
  "component_bfs district_adj unused visited component [] = (visited, component)"
| "component_bfs district_adj unused visited component (current # queue) =
     (case visit_unused unused visited component queue (adj_get district_adj current) of
        (visited', component', queue') \<Rightarrow>
          component_bfs district_adj unused visited' component' queue')"
  by pat_completeness auto
termination
proof (relation "measure (\<lambda>(district_adj, unused, visited, component, queue).
    card (set unused - set visited) + length queue)", goal_cases)
  case 1
  show ?case by simp
next
  case (2 district_adj unused visited component current queue x y xa ya)
  from 2 have "visit_unused unused visited component queue
      (adj_get district_adj current) = (x, xa, ya)" by simp
  from visit_unused_measure [OF this] show ?case by simp
qed

text \<open>The \<^verbatim>\<open>for start in unused\<close> loop; \<open>starts\<close> is what is left of the enumeration of
  \<open>unused\<close>.\<close>

fun find_components ::
  "district_adj \<Rightarrow> int list \<Rightarrow> int list \<Rightarrow> int list \<Rightarrow> int list list \<Rightarrow> int list list"
where
  "find_components district_adj unused [] visited components = components"
| "find_components district_adj unused (start # starts) visited components =
     (if start \<in> set visited
      then find_components district_adj unused starts visited components
      else (case component_bfs district_adj unused (insort_insert start visited) [start] [start] of
              (visited', component) \<Rightarrow>
                find_components district_adj unused starts visited' (components @ [component])))"

definition can_satisfy_remaining :: "int list \<Rightarrow> district_adj \<Rightarrow> int list \<Rightarrow> bool" where
  "can_satisfy_remaining unused district_adj remaining_sizes =
     (if remaining_sizes = [] then length unused = 0
      else
        (let components = find_components district_adj unused unused [] [];
             component_sizes = rev (sort (map (\<lambda>c. int (length c)) components));
             required_sizes = rev (sort remaining_sizes)
         in if sum_list component_sizes \<noteq> sum_list required_sizes then False
            else if component_sizes \<noteq> [] \<and> required_sizes \<noteq> []
            then (if hd component_sizes < hd required_sizes then False else True)
            else True))"

section \<open>The gluing engine\<close>

text \<open>
  The generator of Python's \<^verbatim>\<open>random\<close> module is library code and a piece of global state.
  It is a parameter: \<open>seed_state s\<close> is the state that \<^verbatim>\<open>random.seed(s)\<close> installs, and
  \<open>randbelow g n\<close> draws an index for a sequence of length \<open>n\<close> from state \<open>g\<close> and gives
  the next state. The library keeps the index below \<open>n\<close>; \<open>choice\<close> reduces it modulo
  \<open>n\<close>, so that this holds for every parameter. The state is threaded through every
  function that draws or reseeds. Both callers of \<open>choice\<close> have checked that the
  sequence is not empty.
\<close>

record 'g random_source =
  seed_state :: "int \<Rightarrow> 'g"
  randbelow :: "'g \<Rightarrow> nat \<Rightarrow> nat \<times> 'g"

definition choice :: "'g random_source \<Rightarrow> int list \<Rightarrow> 'g \<Rightarrow> int \<times> 'g" where
  "choice R xs g = (case randbelow R g (length xs) of (k, g') \<Rightarrow> (xs ! (k mod length xs), g'))"

lemma choice_member: "xs \<noteq> [] \<Longrightarrow> choice R xs g = (x, g') \<Longrightarrow> x \<in> set xs"
  by (auto simp: choice_def split: prod.splits)

text \<open>The two nested loops that collect the unused neighbours of the current group.\<close>

fun neighbor_candidates :: "int list \<Rightarrow> int list \<Rightarrow> int list \<Rightarrow> int list" where
  "neighbor_candidates unused candidates [] = candidates"
| "neighbor_candidates unused candidates (neighbor # rest) =
     (if neighbor \<in> set unused
      then neighbor_candidates unused (insort_insert neighbor candidates) rest
      else neighbor_candidates unused candidates rest)"

fun group_candidates :: "district_adj \<Rightarrow> int list \<Rightarrow> int list \<Rightarrow> int list \<Rightarrow> int list" where
  "group_candidates district_adj unused candidates [] = candidates"
| "group_candidates district_adj unused candidates (district # rest) =
     group_candidates district_adj unused
       (neighbor_candidates unused candidates (adj_get district_adj district)) rest"

lemma neighbor_candidates_set:
  "set (neighbor_candidates unused candidates ns) = set candidates \<union> (set ns \<inter> set unused)"
  by (induction ns arbitrary: candidates) (auto simp: set_insort_insert)

lemma group_candidates_set:
  "set (group_candidates district_adj unused candidates grp) =
   set candidates \<union> {n \<in> set unused. \<exists>d \<in> set grp. n \<in> set (adj_get district_adj d)}"
  by (induction grp arbitrary: candidates) (auto simp: neighbor_candidates_set)

text \<open>The \<^verbatim>\<open>while len(current_group) < target_size\<close> loop. Every round moves one district
  out of \<open>unused\<close>.\<close>

function grow ::
  "'g random_source \<Rightarrow> district_adj \<Rightarrow> int \<Rightarrow> int \<Rightarrow> int list \<Rightarrow> int list \<Rightarrow> 'g
     \<Rightarrow> (error + int list \<times> int list) \<times> 'g"
where
  "grow R district_adj super_id target_size current_group unused g =
     (if int (length current_group) < target_size
      then (if group_candidates district_adj unused [] current_group = []
            then (Inl (CannotExpand super_id), g)
            else (case choice R (group_candidates district_adj unused [] current_group) g of
                    (new_district, g') \<Rightarrow>
                      grow R district_adj super_id target_size
                        (insort_insert new_district current_group)
                        (remove1 new_district unused) g'))
      else (Inr (current_group, unused), g))"
  by pat_completeness auto
termination
proof (relation "measure (\<lambda>(R, district_adj, super_id, target_size, current_group, unused, g).
    length unused)", goal_cases)
  case 1
  show ?case by simp
next
  case (2 R district_adj super_id target_size current_group unused g new_district g')
  from choice_member [OF 2(2) 2(3) [symmetric]]
  have "new_district \<in> set (group_candidates district_adj unused [] current_group)" .
  then have "new_district \<in> set unused" by (simp add: group_candidates_set)
  then show ?case by (simp add: length_remove1) (cases unused; simp)
qed

declare grow.simps [simp del]

text \<open>\<^verbatim>\<open>for dist in current_group: district_to_super[dist] = super_id\<close>.\<close>

definition assign_group :: "int list \<Rightarrow> int \<Rightarrow> (int \<rightharpoonup> int) \<Rightarrow> (int \<rightharpoonup> int)" where
  "assign_group current_group super_id district_to_super =
     fold (\<lambda>district m. m(district \<mapsto> super_id)) current_group district_to_super"

text \<open>
  The \<^verbatim>\<open>for super_id, target_size in enumerate(target_sizes)\<close> loop of \<^verbatim>\<open>_try_gluing\<close>. The
  list argument is what is left of \<open>target_sizes\<close>, so its tail is
  \<^verbatim>\<open>target_sizes[super_id + 1:]\<close>.
\<close>

fun build_super_districts ::
  "'g random_source \<Rightarrow> district_adj \<Rightarrow> int list \<Rightarrow> int \<Rightarrow> int list \<Rightarrow> (int \<rightharpoonup> int) \<Rightarrow> 'g
     \<Rightarrow> (error + (int \<rightharpoonup> int)) \<times> 'g"
where
  "build_super_districts R district_adj [] super_id unused district_to_super g =
     (Inr district_to_super, g)"
| "build_super_districts R district_adj (target_size # remaining_targets) super_id unused
     district_to_super g =
     (if unused = [] then (Inl RanOutOfDistricts, g)
      else
        (case choice R unused g of
           (seed_district, g1) \<Rightarrow>
             (case grow R district_adj super_id target_size [seed_district]
                     (remove1 seed_district unused) g1 of
                (Inl e, g2) \<Rightarrow> (Inl e, g2)
              | (Inr (current_group, unused'), g2) \<Rightarrow>
                  if \<not> is_connected current_group district_adj
                  then (Inl (NotContiguous super_id), g2)
                  else if \<not> can_satisfy_remaining unused' district_adj remaining_targets
                  then (Inl CannotSatisfyRemaining, g2)
                  else build_super_districts R district_adj remaining_targets (super_id + 1)
                         unused' (assign_group current_group super_id district_to_super) g2)))"

text \<open>\<^verbatim>\<open>_try_gluing\<close>: whatever the generator state \<open>g\<close> on entry, \<^verbatim>\<open>random.seed(seed)\<close>
  replaces it; \<^verbatim>\<open>set(range(num_districts))\<close> is \<open>[0..num_districts - 1]\<close>.\<close>

definition try_gluing ::
  "'g random_source \<Rightarrow> district_adj \<Rightarrow> int list \<Rightarrow> int \<Rightarrow> int \<Rightarrow> 'g
     \<Rightarrow> (error + (int \<rightharpoonup> int)) \<times> 'g"
where
  "try_gluing R district_adj target_sizes num_districts seed g =
     build_super_districts R district_adj target_sizes 0 [0..num_districts - 1] Map.empty
       (seed_state R seed)"

definition max_attempts :: nat where
  "max_attempts = 100"

text \<open>
  The \<^verbatim>\<open>for attempt in range(max_attempts)\<close> loop of \<^verbatim>\<open>glue_districts_greedy\<close>: a successful
  attempt returns, a failed one is retried unless it was the last, whose exception is
  re-raised inside the final \<^verbatim>\<open>ValueError\<close>. The loop is traced: next to what it returns
  or raises and the generator state it leaves, it gives the seeds it has passed to
  \<^verbatim>\<open>_try_gluing\<close>, one for each call and in the order of the calls.
\<close>

function glue_attempts ::
  "'g random_source \<Rightarrow> district_adj \<Rightarrow> int list \<Rightarrow> int \<Rightarrow> int \<Rightarrow> nat \<Rightarrow> 'g
     \<Rightarrow> int list \<times> (error + (int \<rightharpoonup> int)) \<times> 'g"
where
  "glue_attempts R district_adj target_sizes num_districts seed attempt g =
     (case try_gluing R district_adj target_sizes num_districts (seed + int attempt) g of
        (Inr district_to_super, g') \<Rightarrow> ([seed + int attempt], Inr district_to_super, g')
      | (Inl e, g') \<Rightarrow>
          if attempt < max_attempts - 1
          then (case glue_attempts R district_adj target_sizes num_districts seed
                       (attempt + 1) g' of
                  (seeds, outcome) \<Rightarrow> ((seed + int attempt) # seeds, outcome))
          else ([seed + int attempt], Inl (NoValidGrouping max_attempts e), g'))"
  by pat_completeness auto
termination
  by (relation "measure (\<lambda>(R, district_adj, target_sizes, num_districts, seed, attempt, g).
      max_attempts - attempt)") auto

declare glue_attempts.simps [simp del]

text \<open>\<^verbatim>\<open>glue_districts_greedy\<close> seeds the generator and runs the loop from attempt 0; what
  it returns or raises, with the generator state, is the loop's outcome.\<close>

definition glue_districts_greedy ::
  "'g random_source \<Rightarrow> district_adj \<Rightarrow> int list \<Rightarrow> int \<Rightarrow> int \<Rightarrow> 'g
     \<Rightarrow> (error + (int \<rightharpoonup> int)) \<times> 'g"
where
  "glue_districts_greedy R district_adj target_sizes num_districts seed g =
     snd (glue_attempts R district_adj target_sizes num_districts seed 0 (seed_state R seed))"

section \<open>Aggregation of precincts into super-districts\<close>

text \<open>
  The data frame is the list of its rows, each with its index label (the labels of a frame
  read from a file are unique, so \<^verbatim>\<open>gdf.loc[label]\<close> is the row at that label). Only the
  three columns the function reads are kept.
\<close>

record precinct_row =
  TOTPOP :: int
  G24PREDHAR :: int
  G24PRERTRU :: int

text \<open>The running totals of one super-district, and their initial value (the default
  factory of the \<^verbatim>\<open>defaultdict\<close>).\<close>

record tally =
  t_dem_votes :: int
  t_rep_votes :: int
  t_population :: int
  t_precincts :: "int list"

definition tally0 :: tally where
  "tally0 = \<lparr> t_dem_votes = 0, t_rep_votes = 0, t_population = 0, t_precincts = [] \<rparr>"

text \<open>The first loop: \<^verbatim>\<open>precinct_to_super[precinct] = district_to_super[district]\<close> over
  \<^verbatim>\<open>assignment.items()\<close>.\<close>

fun map_precincts ::
  "(int \<times> int) list \<Rightarrow> (int \<rightharpoonup> int) \<Rightarrow> (int \<rightharpoonup> int) \<Rightarrow> error + (int \<rightharpoonup> int)"
where
  "map_precincts [] district_to_super precinct_to_super = Inr precinct_to_super"
| "map_precincts ((precinct, district) # rest) district_to_super precinct_to_super =
     (case district_to_super district of
        None \<Rightarrow> Inl (KeyError district)
      | Some super_id \<Rightarrow>
          map_precincts rest district_to_super (precinct_to_super(precinct \<mapsto> super_id)))"

text \<open>\<^verbatim>\<open>super_districts[super_id]\<close> updated in place by \<open>f\<close>; a new key goes to the end with
  the default value.\<close>

fun tally_update :: "int \<Rightarrow> (tally \<Rightarrow> tally) \<Rightarrow> (int \<times> tally) list \<Rightarrow> (int \<times> tally) list" where
  "tally_update k f [] = [(k, f tally0)]"
| "tally_update k f ((k', t) # rest) =
     (if k = k' then (k', f t) # rest else (k', t) # tally_update k f rest)"

definition add_row :: "int \<Rightarrow> precinct_row \<Rightarrow> tally \<Rightarrow> tally" where
  "add_row precinct_idx row t =
     \<lparr> t_dem_votes = t_dem_votes t + G24PREDHAR row,
       t_rep_votes = t_rep_votes t + G24PRERTRU row,
       t_population = t_population t + TOTPOP row,
       t_precincts = t_precincts t @ [precinct_idx] \<rparr>"

text \<open>The second loop, over \<^verbatim>\<open>gdf.index\<close>: a label that is not a key of
  \<^verbatim>\<open>precinct_to_super\<close> is passed over.\<close>

fun accumulate ::
  "(int \<times> precinct_row) list \<Rightarrow> (int \<rightharpoonup> int) \<Rightarrow> (int \<times> tally) list \<Rightarrow> (int \<times> tally) list"
where
  "accumulate [] precinct_to_super super_districts = super_districts"
| "accumulate ((precinct_idx, row) # rest) precinct_to_super super_districts =
     (case precinct_to_super precinct_idx of
        None \<Rightarrow> accumulate rest precinct_to_super super_districts
      | Some super_id \<Rightarrow>
          accumulate rest precinct_to_super
            (tally_update super_id (add_row precinct_idx row) super_districts))"

text \<open>
  The result dictionary of one super-district. A float is the real number it denotes; the
  rounding of an exact result to the nearest float is the parameter \<open>fl\<close> of the functions
  that compute with floats.
\<close>

record superdistrict =
  superdistrict_id :: int
  dem_votes :: int
  rep_votes :: int
  population :: int
  dem_share :: real
  num_precincts :: nat
  precincts :: "int list"

text \<open>The third loop: one result dictionary per super-district. The quotient of two
  ints is a float, rounded by \<open>fl\<close>.\<close>

definition summarize :: "(real \<Rightarrow> real) \<Rightarrow> int \<times> tally \<Rightarrow> int \<times> superdistrict" where
  "summarize fl entry =
     (case entry of (super_id, data) \<Rightarrow>
        (let total_votes = t_dem_votes data + t_rep_votes data;
             share = (if total_votes > 0
                      then fl (of_int (t_dem_votes data) / of_int total_votes) else 0)
         in (super_id,
             \<lparr> superdistrict_id = super_id,
               dem_votes = t_dem_votes data,
               rep_votes = t_rep_votes data,
               population = t_population data,
               dem_share = share,
               num_precincts = length (t_precincts data),
               precincts = t_precincts data \<rparr>)))"

definition aggregate_precincts_to_superdistricts ::
  "(real \<Rightarrow> real) \<Rightarrow> (int \<times> precinct_row) list \<Rightarrow> (int \<times> int) list \<Rightarrow> (int \<rightharpoonup> int)
     \<Rightarrow> error + (int \<times> superdistrict) list"
where
  "aggregate_precincts_to_superdistricts fl gdf assignment district_to_super =
     (case map_precincts assignment district_to_super Map.empty of
        Inl e \<Rightarrow> Inl e
      | Inr precinct_to_super \<Rightarrow>
          Inr (map (summarize fl) (accumulate gdf precinct_to_super [])))"

section \<open>Seat allocation\<close>

text \<open>
  The dictionary of one super-district after \<^verbatim>\<open>allocate_seats_proportionally\<close> has added
  its three keys to it.
\<close>

record allocated =
  a_superdistrict_id :: int
  a_dem_votes :: int
  a_rep_votes :: int
  a_population :: int
  a_dem_share :: real
  a_num_precincts :: nat
  a_precincts :: "int list"
  total_seats :: int
  dem_seats :: int
  rep_seats :: int

text \<open>The body of the loop of \<^verbatim>\<open>allocate_seats_proportionally\<close> for one super-district
  whose seat count has been read.\<close>

definition allocate_one :: "(real \<Rightarrow> real) \<Rightarrow> int \<Rightarrow> superdistrict \<Rightarrow> allocated" where
  "allocate_one fl seats data =
     (let share = dem_share data;
          d_seats = py_round (fl (share * of_int seats));
          r_seats = seats - d_seats
      in \<lparr> a_superdistrict_id = superdistrict_id data,
           a_dem_votes = dem_votes data,
           a_rep_votes = rep_votes data,
           a_population = population data,
           a_dem_share = share,
           a_num_precincts = num_precincts data,
           a_precincts = precincts data,
           total_seats = seats,
           dem_seats = d_seats,
           rep_seats = r_seats \<rparr>)"

text \<open>The loop over \<^verbatim>\<open>super_districts_data.items()\<close>; \<^verbatim>\<open>target_sizes[super_id]\<close> may raise.\<close>

fun allocate_seats_proportionally ::
  "(real \<Rightarrow> real) \<Rightarrow> (int \<times> superdistrict) list \<Rightarrow> int list \<Rightarrow> error + (int \<times> allocated) list"
where
  "allocate_seats_proportionally fl [] target_sizes = Inr []"
| "allocate_seats_proportionally fl ((super_id, data) # rest) target_sizes =
     (case py_index target_sizes super_id of
        Inl e \<Rightarrow> Inl e
      | Inr seats \<Rightarrow>
          (case allocate_seats_proportionally fl rest target_sizes of
             Inl e \<Rightarrow> Inl e
           | Inr out \<Rightarrow> Inr ((super_id, allocate_one fl seats data) # out)))"

section \<open>Notions used to state the properties\<close>

text \<open>
  The graph that the searches walk: the edges of the adjacency between members of a set
  \<open>S\<close>, the districts reachable from \<open>s\<close> along them, and the family of these reachable sets.
  When the edges are symmetric these are the connected components of \<open>S\<close>.
\<close>

definition edges_within :: "district_adj \<Rightarrow> int set \<Rightarrow> (int \<times> int) set" where
  "edges_within adj S = {(a, b). a \<in> S \<and> b \<in> S \<and> b \<in> set (adj_get adj a)}"

definition component_of :: "district_adj \<Rightarrow> int set \<Rightarrow> int \<Rightarrow> int set" where
  "component_of adj S s = (edges_within adj S)\<^sup>* `` {s}"

definition components :: "district_adj \<Rightarrow> int set \<Rightarrow> int set set" where
  "components adj S = component_of adj S ` S"

text \<open>The adjacency is symmetric between the districts of a set given as a list.\<close>

definition symmetric_within :: "district_adj \<Rightarrow> int list \<Rightarrow> bool" where
  "symmetric_within adj unused =
     (\<forall>a \<in> set unused. \<forall>b \<in> set (adj_get adj a). b \<in> set unused \<longrightarrow> a \<in> set (adj_get adj b))"

text \<open>Precincts \<open>p\<close> and \<open>q\<close> lie in two different districts, one of which is \<open>d\<close>.\<close>

definition crossing :: "(int \<times> int) list \<Rightarrow> int \<Rightarrow> int \<Rightarrow> int \<Rightarrow> bool" where
  "crossing assignment d p q =
     (\<exists>dp dq. map_of assignment p = Some dp \<and> map_of assignment q = Some dq \<and>
        dp \<noteq> dq \<and> (d = dp \<or> d = dq))"

section \<open>Example inputs\<close>

text \<open>Two generators: one whose state counts the draws since seeding and whose draw is
  that count, and one that always draws index 0.\<close>

definition counting_source :: "nat random_source" where
  "counting_source = \<lparr> seed_state = (\<lambda>s. nat \<bar>s\<bar>), randbelow = (\<lambda>g n. (g, Suc g)) \<rparr>"



definition chain4 :: district_adj where
  "chain4 = [0 \<mapsto> [1], 1 \<mapsto> [0, 2], 2 \<mapsto> [1, 3], 3 \<mapsto> [2]]"

text \<open>Three precincts in a row, the first two in district 0 and the third in district 1;
  a fourth precinct, without neighbours, makes up district 2.\<close>

definition island_precinct_adj :: "(int \<times> int list) list" where
  "island_precinct_adj = [(0, [1]), (1, [0, 2]), (2, [1])]"

definition island_assignment :: "(int \<times> int) list" where
  "island_assignment = [(0, 0), (1, 0), (2, 1), (3, 2)]"

definition island_district_adj :: district_adj where
  "island_district_adj = [0 \<mapsto> [1], 1 \<mapsto> [0]]"

text \<open>Two precincts, and a row that no plan assigns.\<close>

definition two_districts_gdf :: "(int \<times> precinct_row) list" where
  "two_districts_gdf =
     [(0, \<lparr> TOTPOP = 100, G24PREDHAR = 60, G24PRERTRU = 40 \<rparr>),
      (1, \<lparr> TOTPOP = 100, G24PREDHAR = 30, G24PRERTRU = 70 \<rparr>)]"

definition stray_row :: precinct_row where
  "stray_row = \<lparr> TOTPOP = 55, G24PREDHAR = 20, G24PRERTRU = 30 \<rparr>"

text \<open>Two super-districts in which the parties are tied, before and after the allocation
  of 5 and of 3 seats.\<close>

definition half_share_data :: "(int \<times> superdistrict) list" where
  "half_share_data =
     [(0, \<lparr> superdistrict_id = 0, dem_votes = 10, rep_votes = 10, population = 40,
             dem_share = 1 / 2, num_precincts = 1, precincts = [0] \<rparr>),
      (1, \<lparr> superdistrict_id = 1, dem_votes = 7, rep_votes = 7, population = 30,
             dem_share = 1 / 2, num_precincts = 1, precincts = [1] \<rparr>)]"

definition half_share_out :: "(int \<times> allocated) list" where
  "half_share_out =
     [(0, \<lparr> a_superdistrict_id = 0, a_dem_votes = 10, a_rep_votes = 10, a_population = 40,
             a_dem_share = 1 / 2, a_num_precincts = 1, a_precincts = [0],
             total_seats = 5, dem_seats = 2, rep_seats = 3 \<rparr>),
      (1, \<lparr> a_superdistrict_id = 1, a_dem_votes = 7, a_rep_votes = 7, a_population = 30,
             a_dem_share = 1 / 2, a_num_precincts = 1, a_precincts = [1],
             total_seats = 3, dem_seats = 2, rep_seats = 1 \<rparr>)]"

section \<open>Properties of the gluing engine\<close>

subsection \<open>The growth loop\<close>

lemma length_insort_insert_new:
  "x \<notin> set xs \<Longrightarrow> length (insort_insert x xs) = Suc (length xs)"
  by (simp add: insort_insert_key_def)

lemma grow_result:
  assumes "grow R adj sid t G U g = (Inr (G', U'), g')"
    and "distinct U" and "distinct G" and "set G \<inter> set U = {}"
  shows "distinct U' \<and> distinct G' \<and> set G' \<inter> set U' = {} \<and>
         set G' \<union> set U' = set G \<union> set U \<and> set G \<subseteq> set G' \<and>
         length G' + length U' = length G + length U \<and>
         (sorted G \<longrightarrow> sorted G') \<and> (sorted U \<longrightarrow> sorted U') \<and>
         int (length G') = max (int (length G)) t"
  using assms
proof (induction R adj sid t G U g rule: grow.induct)
  case (1 R adj sid t G U g)
  show ?case
  proof (cases "int (length G) < t")
    case False
    with "1.prems"(1) have "G' = G" "U' = U"
      by (simp_all add: grow.simps [of R adj sid t G U g])
    with "1.prems" False show ?thesis by simp
  next
    case True
    let ?c = "group_candidates adj U [] G"
    from True "1.prems"(1) have ne: "?c \<noteq> []"
      by (auto simp: grow.simps [of R adj sid t G U g])
    obtain new g1 where ch: "choice R ?c g = (new, g1)" by (cases "choice R ?c g")
    from choice_member [OF ne ch] have newU: "new \<in> set U"
      by (simp add: group_candidates_set)
    with "1.prems"(4) have newG: "new \<notin> set G" by auto
    from True ne ch "1.prems"(1) have run:
      "grow R adj sid t (insort_insert new G) (remove1 new U) g1 = (Inr (G', U'), g')"
      by (simp add: grow.simps [of R adj sid t G U g])
    have d1: "distinct (remove1 new U)" using "1.prems"(2) by simp
    have d2: "distinct (insort_insert new G)"
      using "1.prems"(3) by (simp add: distinct_insort_insert)
    have d3: "set (insort_insert new G) \<inter> set (remove1 new U) = {}"
      using "1.prems"(2,4) by (auto simp: set_insort_insert)
    from "1.IH" [OF True ne ch [symmetric] run d1 d2 d3]
    have IH: "distinct U' \<and> distinct G' \<and> set G' \<inter> set U' = {} \<and>
         set G' \<union> set U' = set (insort_insert new G) \<union> set (remove1 new U) \<and>
         set (insort_insert new G) \<subseteq> set G' \<and>
         length G' + length U' = length (insort_insert new G) + length (remove1 new U) \<and>
         (sorted (insort_insert new G) \<longrightarrow> sorted G') \<and>
         (sorted (remove1 new U) \<longrightarrow> sorted U') \<and>
         int (length G') = max (int (length (insort_insert new G))) t" .
    have s1: "set (insort_insert new G) \<union> set (remove1 new U) = set G \<union> set U"
      using newU "1.prems"(2) by (auto simp: set_insort_insert)
    have l1: "length (insort_insert new G) + length (remove1 new U) = length G + length U"
      using newU newG by (simp add: length_insort_insert_new length_remove1) (cases U; simp)
    have l2: "max (int (length (insort_insert new G))) t = max (int (length G)) t"
      using True newG by (simp add: length_insort_insert_new)
    have s2: "sorted G \<longrightarrow> sorted (insort_insert new G)"
      by (simp add: sorted_insort_insert)
    have s3: "sorted U \<longrightarrow> sorted (remove1 new U)"
      by (simp add: sorted_remove1)
    from IH s1 l1 l2 s2 s3 show ?thesis by (auto simp: set_insort_insert)
  qed
qed

subsection \<open>One attempt\<close>

lemma assign_group_apply:
  "assign_group G sid m d = (if d \<in> set G then Some sid else m d)"
  unfolding assign_group_def by (induction G arbitrary: m) auto

lemma build_step:
  assumes "build_super_districts R adj (t # rest) sid U m g = (Inr res, g')"
  obtains seed_district g1 G U' g2 where
    "U \<noteq> []" "choice R U g = (seed_district, g1)"
    "grow R adj sid t [seed_district] (remove1 seed_district U) g1 = (Inr (G, U'), g2)"
    "is_connected G adj" "can_satisfy_remaining U' adj rest"
    "build_super_districts R adj rest (sid + 1) U' (assign_group G sid m) g2 = (Inr res, g')"
proof -
  from assms have ne: "U \<noteq> []" by (auto split: if_splits)
  obtain seed_district g1 where ch: "choice R U g = (seed_district, g1)"
    by (cases "choice R U g")
  obtain r g2 where gr:
    "grow R adj sid t [seed_district] (remove1 seed_district U) g1 = (r, g2)"
    by (cases "grow R adj sid t [seed_district] (remove1 seed_district U) g1")
  from assms ne ch gr obtain G U' where r: "r = Inr (G, U')"
    by (cases r) auto
  from assms ne ch gr r have
    "is_connected G adj" "can_satisfy_remaining U' adj rest"
    "build_super_districts R adj rest (sid + 1) U' (assign_group G sid m) g2 = (Inr res, g')"
    by (auto split: if_splits)
  with ne ch gr r that show thesis by blast
qed

lemma build_step_group:
  assumes ne: "U \<noteq> []" and ch: "choice R U g = (seed_district, g1)"
    and gr: "grow R adj sid t [seed_district] (remove1 seed_district U) g1 = (Inr (G, U'), g2)"
    and dU: "distinct U"
  shows "distinct U' \<and> distinct G \<and> set G \<inter> set U' = {} \<and> set G \<union> set U' = set U \<and>
         length G + length U' = length U \<and> (sorted U \<longrightarrow> sorted G \<and> sorted U') \<and>
         int (length G) = max 1 t"
proof -
  from choice_member [OF ne ch] have mem: "seed_district \<in> set U" .
  have "distinct (remove1 seed_district U)" using dU by simp
  moreover have "distinct [seed_district]" by simp
  moreover have "set [seed_district] \<inter> set (remove1 seed_district U) = {}"
    using dU by simp
  ultimately have r: "distinct U' \<and> distinct G \<and> set G \<inter> set U' = {} \<and>
         set G \<union> set U' = set [seed_district] \<union> set (remove1 seed_district U) \<and>
         set [seed_district] \<subseteq> set G \<and>
         length G + length U' = length [seed_district] + length (remove1 seed_district U) \<and>
         (sorted [seed_district] \<longrightarrow> sorted G) \<and>
         (sorted (remove1 seed_district U) \<longrightarrow> sorted U') \<and>
         int (length G) = max (int (length [seed_district])) t"
    by (rule grow_result [OF gr])
  have "set [seed_district] \<union> set (remove1 seed_district U) = set U"
    using mem dU by auto
  moreover have "length [seed_district] + length (remove1 seed_district U) = length U"
    using mem by (simp add: length_remove1) (cases U; simp)
  moreover have "sorted U \<longrightarrow> sorted (remove1 seed_district U)"
    by (simp add: sorted_remove1)
  ultimately show ?thesis using r by simp
qed

lemma can_satisfy_remaining_Nil: "can_satisfy_remaining U adj [] = (U = [])"
  by (simp add: can_satisfy_remaining_def)

lemma build_sizes:
  assumes "build_super_districts R adj ts sid U m g = (Inr res, g')"
    and "distinct U" and "ts \<noteq> []"
  shows "int (length U) = (\<Sum>t \<leftarrow> ts. max 1 t)"
  using assms
proof (induction ts arbitrary: sid U m g)
  case Nil
  then show ?case by simp
next
  case (Cons t rest)
  from Cons.prems(1) obtain seed_district g1 G U' g2 where
    ne: "U \<noteq> []" and ch: "choice R U g = (seed_district, g1)" and
    gr: "grow R adj sid t [seed_district] (remove1 seed_district U) g1 = (Inr (G, U'), g2)" and
    cs: "can_satisfy_remaining U' adj rest" and
    run: "build_super_districts R adj rest (sid + 1) U' (assign_group G sid m) g2 = (Inr res, g')"
    by (rule build_step)
  from build_step_group [OF ne ch gr Cons.prems(2)] have
    dU': "distinct U'" and len: "length G + length U' = length U" and
    lG: "int (length G) = max 1 t" by simp_all
  show ?case
  proof (cases "rest = []")
    case True
    with cs have "U' = []" by (simp add: can_satisfy_remaining_Nil)
    with len lG True show ?thesis by simp
  next
    case False
    from Cons.IH [OF run dU' False] have "int (length U') = (\<Sum>t \<leftarrow> rest. max 1 t)" .
    with len lG show ?thesis by simp
  qed
qed

lemma sum_le_sum_max_one: "sum_list ts \<le> (\<Sum>t \<leftarrow> ts. max (1 :: int) t)"
  by (induction ts) auto

lemma sum_max_one:
  "(\<Sum>t \<leftarrow> ts. max 1 t) = sum_list ts \<Longrightarrow> \<forall>t \<in> set ts. (1 :: int) \<le> t"
proof (induction ts)
  case Nil
  then show ?case by simp
next
  case (Cons t ts)
  have ge: "sum_list ts \<le> (\<Sum>t \<leftarrow> ts. max 1 t)"
    by (rule sum_le_sum_max_one)
  have "t \<le> max 1 t" by simp
  with ge Cons.prems have "max 1 t = t" "(\<Sum>t \<leftarrow> ts. max 1 t) = sum_list ts" by simp_all
  with Cons.IH show ?case by simp
qed


subsection \<open>The retry loop\<close>

lemma try_gluing_reseeds:
  "try_gluing R adj ts n seed g = try_gluing R adj ts n seed g'"
  by (simp add: try_gluing_def)

lemma glue_attempts_reseeds:
  "glue_attempts R adj ts n seed attempt g = glue_attempts R adj ts n seed attempt g'"
  by (subst glue_attempts.simps, subst (2) glue_attempts.simps)
    (simp add: try_gluing_reseeds [of R adj ts n _ g g'])

text \<open>
  What the loop does, from any attempt on: it calls \<^verbatim>\<open>_try_gluing\<close> with the seeds
  \<open>seed + attempt, \<dots>, seed + k\<close> and no others, in this order; the calls before the last
  one fail; the last one either succeeds, and the loop returns its result, or it is the
  hundredth attempt and fails, and the loop raises the final error around its error.
\<close>

lemma glue_attempts_trace:
  assumes "attempt < max_attempts"
  shows "\<exists>k. attempt \<le> k \<and> k < max_attempts \<and>
           fst (glue_attempts R adj ts n seed attempt g) = map (\<lambda>a. seed + int a) [attempt..<Suc k] \<and>
           (\<forall>a. attempt \<le> a \<and> a < k \<longrightarrow> isl (fst (try_gluing R adj ts n (seed + int a) g0))) \<and>
           (case fst (try_gluing R adj ts n (seed + int k) g0) of
              Inr res \<Rightarrow> fst (snd (glue_attempts R adj ts n seed attempt g)) = Inr res
            | Inl e \<Rightarrow> k = max_attempts - 1 \<and>
                fst (snd (glue_attempts R adj ts n seed attempt g))
                  = Inl (NoValidGrouping max_attempts e))"
  using assms
proof (induction "max_attempts - attempt" arbitrary: attempt g)
  case 0
  then show ?case by simp
next
  case (Suc m)
  obtain r g1 where here: "try_gluing R adj ts n (seed + int attempt) g = (r, g1)"
    by (cases "try_gluing R adj ts n (seed + int attempt) g")
  then have here0: "fst (try_gluing R adj ts n (seed + int attempt) g0) = r"
    by (simp add: try_gluing_reseeds [of R adj ts n _ g0 g])
  have one: "[attempt..<Suc attempt] = [attempt]" by simp
  show ?case
  proof (cases r)
    case (Inr res)
    with here have "glue_attempts R adj ts n seed attempt g = ([seed + int attempt], Inr res, g1)"
      by (simp add: glue_attempts.simps [of R adj ts n seed attempt g])
    with here0 Inr Suc.prems one show ?thesis
      by (intro exI [of _ attempt]) auto
  next
    case (Inl e)
    show ?thesis
    proof (cases "attempt < max_attempts - 1")
      case True
      from Suc.hyps(2) have m: "m = max_attempts - Suc attempt" by simp
      from True have lt: "Suc attempt < max_attempts" by simp
      from Suc.hyps(1) [OF m lt, of g1] obtain k where k:
        "Suc attempt \<le> k" "k < max_attempts"
        "fst (glue_attempts R adj ts n seed (Suc attempt) g1)
           = map (\<lambda>a. seed + int a) [Suc attempt..<Suc k]"
        "\<forall>a. Suc attempt \<le> a \<and> a < k \<longrightarrow> isl (fst (try_gluing R adj ts n (seed + int a) g0))"
        "case fst (try_gluing R adj ts n (seed + int k) g0) of
           Inr res \<Rightarrow> fst (snd (glue_attempts R adj ts n seed (Suc attempt) g1)) = Inr res
         | Inl e \<Rightarrow> k = max_attempts - 1 \<and>
             fst (snd (glue_attempts R adj ts n seed (Suc attempt) g1))
               = Inl (NoValidGrouping max_attempts e)"
        by blast
      have step: "glue_attempts R adj ts n seed attempt g =
          ((seed + int attempt) # fst (glue_attempts R adj ts n seed (Suc attempt) g1),
           snd (glue_attempts R adj ts n seed (Suc attempt) g1))"
        using here Inl True
        by (simp add: glue_attempts.simps [of R adj ts n seed attempt g] split: prod.splits)
      have seeds: "fst (glue_attempts R adj ts n seed attempt g)
          = map (\<lambda>a. seed + int a) [attempt..<Suc k]"
      proof -
        from k(1) have "[attempt..<Suc k] = attempt # [Suc attempt..<Suc k]"
          by (simp add: upt_conv_Cons)
        with step k(3) show ?thesis by simp
      qed
      have fails: "\<forall>a. attempt \<le> a \<and> a < k \<longrightarrow>
          isl (fst (try_gluing R adj ts n (seed + int a) g0))"
      proof (intro allI impI)
        fix a assume a: "attempt \<le> a \<and> a < k"
        show "isl (fst (try_gluing R adj ts n (seed + int a) g0))"
        proof (cases "a = attempt")
          case True
          with here0 Inl show ?thesis by simp
        next
          case False
          with a k(4) show ?thesis by simp
        qed
      qed
      have last: "snd (glue_attempts R adj ts n seed attempt g)
          = snd (glue_attempts R adj ts n seed (Suc attempt) g1)"
        using step by simp
      from k(1) have "attempt \<le> k" by simp
      with k(2) seeds fails k(5) show ?thesis
        unfolding last by (intro exI [of _ k]) simp
    next
      case False
      with Suc.prems have final: "attempt = max_attempts - 1" by simp
      from here Inl False have
        "glue_attempts R adj ts n seed attempt g
           = ([seed + int attempt], Inl (NoValidGrouping max_attempts e), g1)"
        by (simp add: glue_attempts.simps [of R adj ts n seed attempt g])
      with here0 Inl Suc.prems one final show ?thesis
        by (intro exI [of _ attempt]) auto
    qed
  qed
qed







subsection \<open>Target sizes that do not add up\<close>

lemma try_gluing_sizes:
  assumes "try_gluing R adj ts n seed g = (Inr res, g')" and "ts \<noteq> []"
  shows "int (nat n) = (\<Sum>t \<leftarrow> ts. max 1 t)"
proof -
  from assms(1) have "build_super_districts R adj ts 0 [0..n - 1] Map.empty (seed_state R seed)
      = (Inr res, g')" by (simp add: try_gluing_def)
  from build_sizes [OF this _ assms(2)] show ?thesis by simp
qed






subsection \<open>The partition produced by a successful attempt\<close>

lemma sorted_distinct_filter_eq:
  assumes "sorted xs" "distinct xs" "sorted ys" "distinct ys"
    and "set ys = {x \<in> set xs. P x}"
  shows "filter P xs = ys"
proof (rule sorted_distinct_set_unique)
  show "sorted (filter P xs)" using assms(1) by (rule sorted_wrt_filter)
  show "distinct (filter P xs)" using assms(2) by simp
  show "set (filter P xs) = set ys" using assms(5) by auto
qed (rule assms)+

lemma build_groups:
  assumes "build_super_districts R adj ts sid U m g = (Inr res, g')"
    and "distinct U" and "sorted U"
    and "\<forall>t \<in> set ts. 1 \<le> t"
    and "ts \<noteq> [] \<or> U = []"
  shows "(\<forall>d. d \<notin> set U \<longrightarrow> res d = m d) \<and>
         (\<forall>d \<in> set U. \<exists>j. res d = Some j \<and> sid \<le> j \<and> j < sid + int (length ts)) \<and>
         (\<forall>i < length ts.
            int (length (filter (\<lambda>d. res d = Some (sid + int i)) U)) = ts ! i \<and>
            is_connected (filter (\<lambda>d. res d = Some (sid + int i)) U) adj)"
  using assms
proof (induction ts arbitrary: sid U m g)
  case Nil
  then show ?case by simp
next
  case (Cons t rest)
  from Cons.prems(1) obtain seed_district g1 G U' g2 where
    ne: "U \<noteq> []" and ch: "choice R U g = (seed_district, g1)" and
    gr: "grow R adj sid t [seed_district] (remove1 seed_district U) g1 = (Inr (G, U'), g2)" and
    conn: "is_connected G adj" and
    cs: "can_satisfy_remaining U' adj rest" and
    run: "build_super_districts R adj rest (sid + 1) U' (assign_group G sid m) g2 = (Inr res, g')"
    by (rule build_step)
  from build_step_group [OF ne ch gr Cons.prems(2)] Cons.prems(3) have
    dU': "distinct U'" and dG: "distinct G" and disj: "set G \<inter> set U' = {}" and
    un: "set G \<union> set U' = set U" and sG: "sorted G" and sU': "sorted U'" and
    lG: "int (length G) = max 1 t" by simp_all
  from Cons.prems(4) have t1: "1 \<le> t" and rest1: "\<forall>t \<in> set rest. 1 \<le> t" by simp_all
  have fin: "rest \<noteq> [] \<or> U' = []"
    using cs by (cases "rest = []") (simp_all add: can_satisfy_remaining_Nil)
  from Cons.IH [OF run dU' sU' rest1 fin] have
    A: "\<And>d. d \<notin> set U' \<Longrightarrow> res d = assign_group G sid m d" and
    B: "\<And>d. d \<in> set U' \<Longrightarrow> \<exists>j. res d = Some j \<and> sid + 1 \<le> j \<and> j < sid + 1 + int (length rest)" and
    C: "\<And>i. i < length rest \<Longrightarrow>
          int (length (filter (\<lambda>d. res d = Some (sid + 1 + int i)) U')) = rest ! i \<and>
          is_connected (filter (\<lambda>d. res d = Some (sid + 1 + int i)) U') adj"
    by blast+
  have inG: "res d = Some sid" if "d \<in> set G" for d
    using that A [of d] disj by (auto simp: assign_group_apply)
  have inU': "res d \<noteq> Some sid" if "d \<in> set U'" for d
    using B [OF that] by auto
  have out: "res d = m d" if "d \<notin> set U" for d
  proof -
    from that un have "d \<notin> set G" "d \<notin> set U'" by auto
    with A [of d] show ?thesis by (simp add: assign_group_apply)
  qed
  have cover: "\<exists>j. res d = Some j \<and> sid \<le> j \<and> j < sid + int (length (t # rest))"
    if "d \<in> set U" for d
  proof (cases "d \<in> set G")
    case True
    with inG show ?thesis by simp
  next
    case False
    with that un have "d \<in> set U'" by auto
    from B [OF this] show ?thesis by auto
  qed
  have first: "filter (\<lambda>d. res d = Some sid) U = G"
  proof (rule sorted_distinct_filter_eq [OF Cons.prems(3) Cons.prems(2) sG dG])
    show "set G = {x \<in> set U. res x = Some sid}"
      using un inG inU' by auto
  qed
  have later: "filter (\<lambda>d. res d = Some (sid + int (Suc i))) U
      = filter (\<lambda>d. res d = Some (sid + 1 + int i)) U'" for i
  proof (rule sorted_distinct_filter_eq [OF Cons.prems(3) Cons.prems(2)])
    show "sorted (filter (\<lambda>d. res d = Some (sid + 1 + int i)) U')"
      using sU' by (rule sorted_wrt_filter)
    show "distinct (filter (\<lambda>d. res d = Some (sid + 1 + int i)) U')"
      using dU' by simp
    have "x \<in> set U'" if "x \<in> set U" "res x = Some (sid + int (Suc i))" for x
    proof (rule ccontr)
      assume "x \<notin> set U'"
      with that(1) un have "x \<in> set G" by auto
      from inG [OF this] that(2) show False by simp
    qed
    moreover have "sid + int (Suc i) = sid + 1 + int i" by simp
    ultimately show "set (filter (\<lambda>d. res d = Some (sid + 1 + int i)) U')
        = {x \<in> set U. res x = Some (sid + int (Suc i))}"
      using un by auto
  qed
  have groups: "int (length (filter (\<lambda>d. res d = Some (sid + int i)) U)) = (t # rest) ! i \<and>
      is_connected (filter (\<lambda>d. res d = Some (sid + int i)) U) adj"
    if "i < length (t # rest)" for i
  proof (cases i)
    case 0
    with first lG t1 conn show ?thesis by simp
  next
    case (Suc k)
    with that have "k < length rest" by simp
    from C [OF this] later [of k] Suc show ?thesis by simp
  qed
  from out cover groups show ?case by blast
qed

lemma sum_max_one_pos: "ts \<noteq> [] \<Longrightarrow> 0 < (\<Sum>t \<leftarrow> ts. max (1 :: int) t)"
proof (induction ts)
  case Nil
  then show ?case by simp
next
  case (Cons t ts)
  have "0 \<le> (\<Sum>t \<leftarrow> ts. max (1 :: int) t)" by (rule sum_list_nonneg) auto
  then show ?case by simp
qed

lemma attempt_partition:
  assumes "try_gluing R district_adj target_sizes num_districts seed g = (Inr res, g')"
    and "sum_list target_sizes = num_districts"
  shows "(\<forall>d. 0 \<le> d \<and> d < num_districts \<longrightarrow>
            (\<exists>!i. res d = Some i) \<and>
            (\<exists>i. res d = Some i \<and> 0 \<le> i \<and> i < int (length target_sizes))) \<and>
         (\<forall>d. d < 0 \<or> num_districts \<le> d \<longrightarrow> res d = None) \<and>
         (\<forall>i < length target_sizes.
            int (card {d. res d = Some (int i)}) = target_sizes ! i \<and>
            is_connected (sorted_list_of_set {d. res d = Some (int i)}) district_adj)"
proof (cases "target_sizes = []")
  case True
  with assms have "res = Map.empty" by (simp add: try_gluing_def)
  with True assms(2) show ?thesis by simp
next
  case False
  let ?U = "[0..num_districts - 1]"
  from assms(1) have run:
    "build_super_districts R district_adj target_sizes 0 ?U Map.empty (seed_state R seed)
       = (Inr res, g')"
    by (simp add: try_gluing_def)
  from try_gluing_sizes [OF assms(1) False]
  have sz: "int (nat num_districts) = (\<Sum>t \<leftarrow> target_sizes. max 1 t)" .
  with sum_max_one_pos [OF False] have "0 < num_districts" by (cases "0 \<le> num_districts") simp_all
  with sz assms(2) have "(\<Sum>t \<leftarrow> target_sizes. max 1 t) = sum_list target_sizes" by simp
  then have pos: "\<forall>t \<in> set target_sizes. 1 \<le> t" by (rule sum_max_one)
  from False have "target_sizes \<noteq> [] \<or> ?U = []" by simp
  from build_groups [OF run distinct_upto sorted_upto pos this] have
    out: "\<And>d. d \<notin> set ?U \<Longrightarrow> res d = None" and
    cover: "\<And>d. d \<in> set ?U \<Longrightarrow>
        \<exists>j. res d = Some j \<and> 0 \<le> j \<and> j < int (length target_sizes)" and
    groups: "\<And>i. i < length target_sizes \<Longrightarrow>
        int (length (filter (\<lambda>d. res d = Some (int i)) ?U)) = target_sizes ! i \<and>
        is_connected (filter (\<lambda>d. res d = Some (int i)) ?U) district_adj"
    by simp_all
  have part1: "(\<exists>!i. res d = Some i) \<and>
      (\<exists>i. res d = Some i \<and> 0 \<le> i \<and> i < int (length target_sizes))"
    if "0 \<le> d \<and> d < num_districts" for d
  proof -
    from that have "d \<in> set ?U" by simp
    from cover [OF this] show ?thesis by auto
  qed
  have part2: "res d = None" if "d < 0 \<or> num_districts \<le> d" for d
    using that by (intro out) auto
  have part3: "int (card {d. res d = Some (int i)}) = target_sizes ! i \<and>
      is_connected (sorted_list_of_set {d. res d = Some (int i)}) district_adj"
    if "i < length target_sizes" for i
  proof -
    let ?G = "filter (\<lambda>d. res d = Some (int i)) ?U"
    have "d \<in> set ?U" if "res d = Some (int i)" for d
      using that out [of d] by (cases "d \<in> set ?U") simp_all
    then have set: "{d. res d = Some (int i)} = set ?G" by auto
    have d: "distinct ?G" by simp
    have s: "sorted ?G" by (rule sorted_wrt_filter) simp
    from d have "card (set ?G) = length ?G" by (rule distinct_card)
    moreover from s d have "sorted_list_of_set (set ?G) = ?G"
      by (rule sorted_list_of_set.idem_if_sorted_distinct)
    ultimately show ?thesis using groups [OF that] by (simp only: set)
  qed
  from part1 part2 part3 show ?thesis by blast
qed

lemma glue_attempts_success:
  assumes "fst (snd (glue_attempts R adj ts n seed attempt g)) = Inr res"
    and "attempt < max_attempts"
  shows "\<exists>a g0. fst (try_gluing R adj ts n (seed + int a) g0) = Inr res"
proof -
  from glue_attempts_trace [OF assms(2), of R adj ts n seed g g] obtain k where k:
    "case fst (try_gluing R adj ts n (seed + int k) g) of
       Inr res \<Rightarrow> fst (snd (glue_attempts R adj ts n seed attempt g)) = Inr res
     | Inl e \<Rightarrow> k = max_attempts - 1 \<and>
         fst (snd (glue_attempts R adj ts n seed attempt g))
           = Inl (NoValidGrouping max_attempts e)"
    by blast
  with assms(1) have "fst (try_gluing R adj ts n (seed + int k) g) = Inr res"
    by (cases "fst (try_gluing R adj ts n (seed + int k) g)") simp_all
  then show ?thesis by blast
qed

text \<open>
  C1. Let an attempt succeed on target sizes that sum to the number of districts. Then
  every district id in \<open>[0, num_districts)\<close> is mapped to exactly one super-district id,
  which is a position of \<open>target_sizes\<close>, and no other id is mapped; for every position
  \<open>i\<close> the set of districts mapped to \<open>i\<close> has exactly \<open>target_sizes[i]\<close> members, and
  \<^verbatim>\<open>is_connected\<close> holds of it under the adjacency that was used. The successful results of
  \<^verbatim>\<open>glue_districts_greedy\<close> are results of such attempts.
\<close>

theorem try_gluing_partition:
  assumes "fst (try_gluing R district_adj target_sizes num_districts seed g) = Inr res \<or>
           fst (glue_districts_greedy R district_adj target_sizes num_districts seed g) = Inr res"
    and "sum_list target_sizes = num_districts"
  shows "(\<forall>d. 0 \<le> d \<and> d < num_districts \<longrightarrow>
            (\<exists>!i. res d = Some i) \<and>
            (\<exists>i. res d = Some i \<and> 0 \<le> i \<and> i < int (length target_sizes))) \<and>
         (\<forall>d. d < 0 \<or> num_districts \<le> d \<longrightarrow> res d = None) \<and>
         (\<forall>i < length target_sizes.
            int (card {d. res d = Some (int i)}) = target_sizes ! i \<and>
            is_connected (sorted_list_of_set {d. res d = Some (int i)}) district_adj)"
proof -
  have "0 < max_attempts" by (simp add: max_attempts_def)
  with assms(1) obtain s g0 where
    "fst (try_gluing R district_adj target_sizes num_districts s g0) = Inr res"
    by (auto simp: glue_districts_greedy_def dest: glue_attempts_success)
  then have "try_gluing R district_adj target_sizes num_districts s g0
      = (Inr res, snd (try_gluing R district_adj target_sizes num_districts s g0))"
    by (cases "try_gluing R district_adj target_sizes num_districts s g0") simp
  from attempt_partition [OF this assms(2)] show ?thesis .
qed

theorem try_gluing_partition_witness:
  "map (projr (fst (glue_districts_greedy counting_source chain4 [2, 2] 4 42 0)))
     [-1, 0, 1, 2, 3, 4] = [None, Some 1, Some 1, Some 0, Some 0, None] \<and>
   int (card {d. projr (fst (glue_districts_greedy counting_source chain4 [2, 2] 4 42 0)) d
                   = Some 0}) = 2 \<and>
   is_connected (sorted_list_of_set
     {d. projr (fst (glue_districts_greedy counting_source chain4 [2, 2] 4 42 0)) d = Some 0})
     chain4 \<and>
   int (card {d. projr (fst (glue_districts_greedy counting_source chain4 [2, 2] 4 42 0)) d
                   = Some 1}) = 2 \<and>
   is_connected (sorted_list_of_set
     {d. projr (fst (glue_districts_greedy counting_source chain4 [2, 2] 4 42 0)) d = Some 1})
     chain4"
proof -
  let ?r = "fst (glue_districts_greedy counting_source chain4 [2, 2] 4 42 0)"
  have ok: "\<not> isl ?r" by code_simp
  then have run: "?r = Inr (projr ?r)" by (cases ?r) simp_all
  have sum: "sum_list [2, 2 :: int] = 4" by simp
  have vals: "map (projr ?r) [-1, 0, 1, 2, 3, 4]
     = [None, Some 1, Some 1, Some 0, Some 0, None]" by code_simp
  from try_gluing_partition [OF disjI2 [OF run] sum] have groups:
    "\<forall>i < length [2, 2 :: int].
       int (card {d. projr ?r d = Some (int i)}) = [2, 2] ! i \<and>
       is_connected (sorted_list_of_set {d. projr ?r d = Some (int i)}) chain4"
    by blast
  from groups [rule_format, of 0] groups [rule_format, of 1] vals show ?thesis by simp
qed

section \<open>Properties of the searches\<close>

lemma symmetric_within_sym: "symmetric_within adj U \<Longrightarrow> sym (edges_within adj (set U))"
  by (auto simp: symmetric_within_def edges_within_def sym_def)

lemma component_of_subset: "s \<in> S \<Longrightarrow> component_of adj S s \<subseteq> S"
proof
  fix v assume s: "s \<in> S" and "v \<in> component_of adj S s"
  then have "(s, v) \<in> (edges_within adj S)\<^sup>*" by (simp add: component_of_def)
  then show "v \<in> S"
    by (induction rule: rtrancl_induct) (use s in \<open>auto simp: edges_within_def\<close>)
qed

lemma component_of_self: "s \<in> component_of adj S s"
  by (simp add: component_of_def)

lemma component_of_eq:
  assumes "sym (edges_within adj S)" and "v \<in> component_of adj S s"
  shows "component_of adj S v = component_of adj S s"
proof -
  let ?E = "edges_within adj S"
  from assms(2) have sv: "(s, v) \<in> ?E\<^sup>*" by (simp add: component_of_def)
  from assms(1) have "sym (?E\<^sup>*)" by (rule sym_rtrancl)
  from symD [OF this sv] have vs: "(v, s) \<in> ?E\<^sup>*" .
  show ?thesis
    unfolding component_of_def using sv vs by (auto intro: rtrancl_trans)
qed

subsection \<open>The breadth-first search\<close>

lemma visit_neighbors_sets:
  "visit_neighbors D V Q ns = (V1, Q1) \<Longrightarrow>
   set V1 = set V \<union> (set ns \<inter> set D) \<and> set Q1 = set Q \<union> (set ns \<inter> set D - set V) \<and>
   (distinct V \<longrightarrow> distinct V1)"
proof (induction ns arbitrary: V Q)
  case Nil
  then show ?case by simp
next
  case (Cons n ns)
  show ?case
  proof (cases "n \<in> set D \<and> n \<notin> set V")
    case True
    with Cons.prems have
      "visit_neighbors D (insort_insert n V) (Q @ [n]) ns = (V1, Q1)" by simp
    from Cons.IH [OF this] True show ?thesis
      by (auto simp: set_insort_insert distinct_insort_insert)
  next
    case False
    with Cons.prems have "visit_neighbors D V Q ns = (V1, Q1)" by auto
    from Cons.IH [OF this] False show ?thesis by auto
  qed
qed

lemma bfs_mono: "set V \<subseteq> set (bfs adj D V Q)"
proof (induction adj D V Q rule: bfs.induct)
  case (1 adj D V)
  then show ?case by simp
next
  case (2 adj D V c q)
  obtain V1 Q1 where vn: "visit_neighbors D V q (adj_get adj c) = (V1, Q1)"
    by (cases "visit_neighbors D V q (adj_get adj c)")
  from "2.IH" [OF vn [symmetric]] visit_neighbors_sets [OF vn] vn
  show ?case by auto
qed

lemma bfs_distinct: "distinct V \<Longrightarrow> distinct (bfs adj D V Q)"
proof (induction adj D V Q rule: bfs.induct)
  case (1 adj D V)
  then show ?case by simp
next
  case (2 adj D V c q)
  obtain V1 Q1 where vn: "visit_neighbors D V q (adj_get adj c) = (V1, Q1)"
    by (cases "visit_neighbors D V q (adj_get adj c)")
  from visit_neighbors_sets [OF vn] "2.prems" have "distinct V1" by simp
  from "2.IH" [OF vn [symmetric] this] vn show ?case by simp
qed

lemma bfs_reach:
  assumes "set Q \<subseteq> set V" and "set V \<subseteq> set D"
    and "edges_within adj (set D) `` (set V - set Q) \<subseteq> set V"
  shows "set (bfs adj D V Q) = (edges_within adj (set D))\<^sup>* `` set V"
  using assms
proof (induction adj D V Q rule: bfs.induct)
  case (1 adj D V)
  then have "edges_within adj (set D) `` set V \<subseteq> set V" by simp
  then have "(edges_within adj (set D))\<^sup>* `` set V = set V" by (rule Image_closed_trancl)
  then show ?case by simp
next
  case (2 adj D V c q)
  let ?E = "edges_within adj (set D)"
  obtain V1 Q1 where vn: "visit_neighbors D V q (adj_get adj c) = (V1, Q1)"
    by (cases "visit_neighbors D V q (adj_get adj c)")
  from visit_neighbors_sets [OF vn] have
    sV1: "set V1 = set V \<union> (set (adj_get adj c) \<inter> set D)" and
    sQ1: "set Q1 = set q \<union> (set (adj_get adj c) \<inter> set D - set V)" by simp_all
  from "2.prems"(1) have cV: "c \<in> set V" and qV: "set q \<subseteq> set V" by simp_all
  from cV "2.prems"(2) have cD: "c \<in> set D" by auto
  have i1: "set Q1 \<subseteq> set V1" using sV1 sQ1 qV by auto
  have i2: "set V1 \<subseteq> set D" using sV1 "2.prems"(2) by auto
  have i3: "?E `` (set V1 - set Q1) \<subseteq> set V1"
  proof
    fix b assume "b \<in> ?E `` (set V1 - set Q1)"
    then obtain a where a: "a \<in> set V1" "a \<notin> set Q1" and ab: "(a, b) \<in> ?E" by auto
    show "b \<in> set V1"
    proof (cases "a = c")
      case True
      with ab sV1 show ?thesis by (auto simp: edges_within_def)
    next
      case False
      from a sV1 sQ1 have "a \<in> set V" "a \<notin> set q" by auto
      with False have "a \<in> set V - set (c # q)" by simp
      with ab "2.prems"(3) have "b \<in> set V" by blast
      with sV1 show ?thesis by simp
    qed
  qed
  from "2.IH" [OF vn [symmetric] i1 i2 i3]
  have IH: "set (bfs adj D V1 Q1) = ?E\<^sup>* `` set V1" .
  have "set V1 \<subseteq> ?E\<^sup>* `` set V"
  proof
    fix x assume "x \<in> set V1"
    with sV1 consider "x \<in> set V" | "x \<in> set (adj_get adj c)" "x \<in> set D" by auto
    then show "x \<in> ?E\<^sup>* `` set V"
    proof cases
      case 1
      then show ?thesis by auto
    next
      case 2
      with cD have "(c, x) \<in> ?E" by (simp add: edges_within_def)
      with cV show ?thesis by auto
    qed
  qed
  then have "?E\<^sup>* `` set V1 \<subseteq> ?E\<^sup>* `` set V" by (blast intro: rtrancl_trans)
  moreover have "?E\<^sup>* `` set V \<subseteq> ?E\<^sup>* `` set V1" using sV1 by blast
  ultimately have "?E\<^sup>* `` set V1 = ?E\<^sup>* `` set V" by blast
  with IH vn show ?case by simp
qed

text \<open>What \<^verbatim>\<open>is_connected\<close> decides: every district of the set is reachable from the first
  one enumerated, along edges inside the set.\<close>

lemma is_connected_reach:
  assumes "distinct D"
  shows "is_connected D adj = (D = [] \<or> set D \<subseteq> component_of adj (set D) (hd D))"
proof (cases D)
  case Nil
  then show ?thesis by (simp add: is_connected_def)
next
  case (Cons s rest)
  define V where "V = bfs adj D [s] [s]"
  have sD: "s \<in> set D" using Cons by simp
  have "set V = (edges_within adj (set D))\<^sup>* `` set [s]"
    unfolding V_def by (rule bfs_reach) (use sD in auto)
  then have reach: "set V = component_of adj (set D) s" by (simp add: component_of_def)
  with component_of_subset [OF sD] have sub: "set V \<subseteq> set D" by simp
  have dV: "distinct V" unfolding V_def by (rule bfs_distinct) simp
  have "(length V = length D) = (set V = set D)"
  proof
    assume "length V = length D"
    with dV assms have "card (set V) = card (set D)" by (simp add: distinct_card)
    with sub show "set V = set D" by (simp add: card_subset_eq)
  next
    assume "set V = set D"
    then have "card (set V) = card (set D)" by simp
    with dV assms show "length V = length D" by (simp add: distinct_card)
  qed
  moreover have "is_connected D adj = (length V = length D)"
    unfolding V_def using Cons by (simp add: is_connected_def del: bfs.simps)
  ultimately show ?thesis using reach sub Cons by auto
qed

subsection \<open>The components of the unused districts\<close>

lemma visit_unused_eq:
  "visit_unused U V C Q ns = (V1, C1, Q1) \<Longrightarrow>
   visit_neighbors U V Q ns = (V1, Q1) \<and> set C1 = set C \<union> (set ns \<inter> set U - set V) \<and>
   (distinct C \<longrightarrow> distinct C1)"
proof (induction ns arbitrary: V C Q)
  case Nil
  then show ?case by simp
next
  case (Cons n ns)
  show ?case
  proof (cases "n \<in> set U \<and> n \<notin> set V")
    case True
    with Cons.prems have
      "visit_unused U (insort_insert n V) (insort_insert n C) (Q @ [n]) ns = (V1, C1, Q1)"
      by simp
    from Cons.IH [OF this] True show ?thesis
      by (auto simp: set_insort_insert distinct_insort_insert)
  next
    case False
    with Cons.prems have "visit_unused U V C Q ns = (V1, C1, Q1)" by auto
    from Cons.IH [OF this] False show ?thesis by auto
  qed
qed

lemma component_bfs_eq:
  "component_bfs adj U V C Q = (V', C') \<Longrightarrow>
   V' = bfs adj U V Q \<and> set C' = set C \<union> (set V' - set V) \<and> (distinct C \<longrightarrow> distinct C')"
proof (induction adj U V C Q arbitrary: V' C' rule: component_bfs.induct)
  case (1 adj U V C)
  then show ?case by auto
next
  case (2 adj U V C c q)
  obtain V1 C1 Q1 where vu: "visit_unused U V C q (adj_get adj c) = (V1, C1, Q1)"
    by (cases "visit_unused U V C q (adj_get adj c)")
  from visit_unused_eq [OF vu] have
    vn: "visit_neighbors U V q (adj_get adj c) = (V1, Q1)" and
    sC1: "set C1 = set C \<union> (set (adj_get adj c) \<inter> set U - set V)" and
    dC1: "distinct C \<longrightarrow> distinct C1" by simp_all
  from visit_neighbors_sets [OF vn] have
    sV1: "set V1 = set V \<union> (set (adj_get adj c) \<inter> set U)" by simp
  from "2.prems" vu have run: "component_bfs adj U V1 C1 Q1 = (V', C')" by simp
  from "2.IH" [OF vu [symmetric] refl run] have
    V': "V' = bfs adj U V1 Q1" and sC': "set C' = set C1 \<union> (set V' - set V1)" and
    dC': "distinct C1 \<longrightarrow> distinct C'" by simp_all
  from V' bfs_mono [of V1 adj U Q1] have "set V1 \<subseteq> set V'" by simp
  with sC' sC1 sV1 have "set C' = set C \<union> (set V' - set V)" by auto
  with V' vn dC1 dC' show ?case by simp
qed

lemma find_components_correct:
  assumes "sym (edges_within adj (set U))" and "set V \<subseteq> set U"
    and "edges_within adj (set U) `` set V \<subseteq> set V" and "set starts \<subseteq> set U"
  shows "\<exists>new. find_components adj U starts V cs = cs @ new \<and>
           distinct (concat new) \<and> set (concat new) \<inter> set V = {} \<and> [] \<notin> set new \<and>
           (\<forall>c \<in> set new. \<exists>s \<in> set starts. set c = component_of adj (set U) s) \<and>
           set V \<union> set (concat new) = set V \<union> \<Union> (component_of adj (set U) ` set starts)"
  using assms(2-)
proof (induction starts arbitrary: V cs)
  case Nil
  then show ?case by simp
next
  case (Cons start starts)
  let ?E = "edges_within adj (set U)"
  from Cons.prems(2) have closed: "?E\<^sup>* `` set V = set V" by (rule Image_closed_trancl)
  from Cons.prems(3) have sU: "start \<in> set U" and stU: "set starts \<subseteq> set U" by simp_all
  show ?case
  proof (cases "start \<in> set V")
    case True
    then have "component_of adj (set U) start \<subseteq> ?E\<^sup>* `` set V"
      by (auto simp: component_of_def)
    with closed have sub: "component_of adj (set U) start \<subseteq> set V" by simp
    from Cons.IH [OF Cons.prems(1,2) stU, of cs] obtain new where
      "find_components adj U starts V cs = cs @ new"
      "distinct (concat new)" "set (concat new) \<inter> set V = {}" "[] \<notin> set new"
      "\<forall>c \<in> set new. \<exists>s \<in> set starts. set c = component_of adj (set U) s"
      "set V \<union> set (concat new) = set V \<union> \<Union> (component_of adj (set U) ` set starts)"
      by blast
    with True sub show ?thesis by auto
  next
    case False
    let ?V0 = "insort_insert start V"
    obtain V' c where cb: "component_bfs adj U ?V0 [start] [start] = (V', c)"
      by (cases "component_bfs adj U ?V0 [start] [start]")
    from component_bfs_eq [OF cb] have
      V': "V' = bfs adj U ?V0 [start]" and
      sc: "set c = {start} \<union> (set V' - set ?V0)" and dc: "distinct c" by simp_all
    have "set (bfs adj U ?V0 [start]) = ?E\<^sup>* `` set ?V0"
    proof (rule bfs_reach)
      show "set [start] \<subseteq> set ?V0" by (simp add: set_insort_insert)
      show "set ?V0 \<subseteq> set U" using sU Cons.prems(1) by (simp add: set_insort_insert)
      show "?E `` (set ?V0 - set [start]) \<subseteq> set ?V0"
        using Cons.prems(2) by (auto simp: set_insort_insert)
    qed
    with V' have "set V' = ?E\<^sup>* `` insert start (set V)" by (simp add: set_insort_insert)
    also have "\<dots> = component_of adj (set U) start \<union> ?E\<^sup>* `` set V"
      by (auto simp: component_of_def)
    finally have sV': "set V' = component_of adj (set U) start \<union> set V"
      using closed by simp
    have disj: "component_of adj (set U) start \<inter> set V = {}"
    proof (rule ccontr)
      assume "component_of adj (set U) start \<inter> set V \<noteq> {}"
      then obtain v where v: "v \<in> component_of adj (set U) start" "v \<in> set V" by auto
      from v(1) have "(start, v) \<in> ?E\<^sup>*" by (simp add: component_of_def)
      from symD [OF sym_rtrancl [OF assms(1)] this] v(2) have "start \<in> ?E\<^sup>* `` set V" by auto
      with closed False show False by simp
    qed
    have c_eq: "set c = component_of adj (set U) start"
      using sc sV' disj component_of_self [of start adj "set U"]
      by (auto simp: set_insort_insert)
    have c_ne: "c \<noteq> []" using sc by auto
    have V'U: "set V' \<subseteq> set U"
      using sV' component_of_subset [OF sU] Cons.prems(1) by auto
    have V'closed: "?E `` set V' \<subseteq> set V'"
    proof -
      have "set V' = ?E\<^sup>* `` insert start (set V)"
        using sV' closed by (auto simp: component_of_def)
      then show ?thesis by (auto intro: rtrancl_into_rtrancl)
    qed
    from Cons.IH [OF V'U V'closed stU, of "cs @ [c]"] obtain new where new:
      "find_components adj U starts V' (cs @ [c]) = (cs @ [c]) @ new"
      "distinct (concat new)" "set (concat new) \<inter> set V' = {}" "[] \<notin> set new"
      "\<forall>c \<in> set new. \<exists>s \<in> set starts. set c = component_of adj (set U) s"
      "set V' \<union> set (concat new) = set V' \<union> \<Union> (component_of adj (set U) ` set starts)"
      by blast
    have run: "find_components adj U (start # starts) V cs = cs @ (c # new)"
      using False cb new(1) by simp
    have p1: "distinct (concat (c # new))"
      using dc new(2,3) sV' c_eq by auto
    have p2: "set (concat (c # new)) \<inter> set V = {}"
      using disj c_eq new(3) sV' by auto
    have p3: "[] \<notin> set (c # new)" using c_ne new(4) by auto
    have p4: "\<forall>c' \<in> set (c # new). \<exists>s \<in> set (start # starts).
        set c' = component_of adj (set U) s"
      using c_eq new(5) by auto
    have p5: "set V \<union> set (concat (c # new))
        = set V \<union> \<Union> (component_of adj (set U) ` set (start # starts))"
      using new(6) sV' c_eq by auto
    from run p1 p2 p3 p4 p5 show ?thesis by blast
  qed
qed

lemma distinct_map_set:
  "distinct (concat xs) \<Longrightarrow> [] \<notin> set xs \<Longrightarrow> distinct (map set xs)"
proof (induction xs)
  case Nil
  then show ?case by simp
next
  case (Cons x xs)
  have "set x \<noteq> set y" if "y \<in> set xs" for y
  proof
    assume eq: "set x = set y"
    from Cons.prems(1) that have "set x \<inter> set y = {}" by auto
    with eq have "set x = {}" by simp
    with Cons.prems(2) show False by simp
  qed
  with Cons show ?case by auto
qed

lemma find_components_all:
  assumes "sym (edges_within adj (set U))"
  shows "set ` set (find_components adj U U [] []) = components adj (set U) \<and>
         distinct (map set (find_components adj U U [] [])) \<and>
         (\<forall>c \<in> set (find_components adj U U [] []). distinct c)"
proof -
  from find_components_correct [OF assms, of "[]" U "[]"] obtain new where
    run: "find_components adj U U [] [] = new" and
    d: "distinct (concat new)" and ne: "[] \<notin> set new" and
    comp: "\<forall>c \<in> set new. \<exists>s \<in> set U. set c = component_of adj (set U) s" and
    cover: "set (concat new) = \<Union> (component_of adj (set U) ` set U)"
    by auto
  have "component_of adj (set U) s \<in> set ` set new" if s: "s \<in> set U" for s
  proof -
    from s cover component_of_self [of s adj "set U"] have "s \<in> set (concat new)" by blast
    then obtain c where c: "c \<in> set new" "s \<in> set c" by auto
    with comp obtain s0 where "set c = component_of adj (set U) s0" by blast
    with c(2) component_of_eq [OF assms, of s s0] have "set c = component_of adj (set U) s"
      by simp
    with c(1) show ?thesis by auto
  qed
  with comp have "set ` set new = components adj (set U)"
    by (auto simp: components_def)
  moreover from d ne have "distinct (map set new)" by (rule distinct_map_set)
  moreover from d have "\<forall>c \<in> set new. distinct c" by (auto simp: distinct_concat_iff)
  ultimately show ?thesis using run by simp
qed

subsection \<open>The feasibility check\<close>

lemma sum_list_insort: "sum_list (insort x xs) = (x :: int) + sum_list xs"
  by (induction xs) auto

lemma sum_list_sort: "sum_list (sort xs) = sum_list (xs :: int list)"
  by (induction xs) (simp_all add: sum_list_insort)

lemma sorted_le_last: "sorted ys \<Longrightarrow> y \<in> set ys \<Longrightarrow> y \<le> last (ys :: int list)"
proof (induction ys)
  case Nil
  then show ?case by simp
next
  case (Cons z zs)
  then show ?case by (cases zs) auto
qed

lemma sort_not_Nil: "xs \<noteq> [] \<Longrightarrow> sort xs \<noteq> []"
proof
  assume "xs \<noteq> []" "sort xs = []"
  then have "length (sort xs) = 0" by simp
  with \<open>xs \<noteq> []\<close> show False by simp
qed

lemma hd_rev_sort:
  assumes "xs \<noteq> []"
  shows "hd (rev (sort xs)) = Max (set (xs :: int list))"
proof -
  have ne: "sort xs \<noteq> []" using assms by (rule sort_not_Nil)
  have "last (sort xs) \<in> set (sort xs)" using ne by (rule last_in_set)
  moreover have "y \<le> last (sort xs)" if "y \<in> set (sort xs)" for y
    using _ that by (rule sorted_le_last) simp
  ultimately have "Max (set (sort xs)) = last (sort xs)"
    by (intro Max_eqI) auto
  then show ?thesis by (simp add: hd_rev)
qed

lemma can_satisfy_remaining_eq:
  "can_satisfy_remaining unused adj remaining =
     (if remaining = [] then unused = []
      else sum_list (map (\<lambda>c. int (length c)) (find_components adj unused unused [] []))
             = sum_list remaining \<and>
           (find_components adj unused unused [] [] \<noteq> [] \<longrightarrow>
              Max (set remaining)
                \<le> Max (set (map (\<lambda>c. int (length c)) (find_components adj unused unused [] [])))))"
proof (cases "remaining = []")
  case True
  then show ?thesis by (simp add: can_satisfy_remaining_def)
next
  case False
  define sizes where "sizes = map (\<lambda>c. int (length c)) (find_components adj unused unused [] [])"
  have ne: "(sizes \<noteq> []) = (find_components adj unused unused [] [] \<noteq> [])"
    by (simp add: sizes_def)
  have "can_satisfy_remaining unused adj remaining =
      (sum_list (rev (sort sizes)) = sum_list (rev (sort remaining)) \<and>
       (rev (sort sizes) \<noteq> [] \<and> rev (sort remaining) \<noteq> [] \<longrightarrow>
          \<not> hd (rev (sort sizes)) < hd (rev (sort remaining))))"
    using False by (auto simp: can_satisfy_remaining_def Let_def sizes_def)
  also have "\<dots> = (sum_list sizes = sum_list remaining \<and>
       (sizes \<noteq> [] \<longrightarrow> Max (set remaining) \<le> Max (set sizes)))"
  proof (cases "sizes = []")
    case True
    then show ?thesis by (simp add: sum_list_sort)
  next
    case ne': False
    have a: "rev (sort sizes) \<noteq> []" and b: "rev (sort remaining) \<noteq> []"
      using ne' False by (simp_all add: sort_not_Nil)
    show ?thesis
      by (simp only: a b ne' hd_rev_sort [OF ne'] hd_rev_sort [OF False] sum_list_rev
          sum_list_sort not_less simp_thms not_False_eq_True)
  qed
  finally show ?thesis using False ne by (simp add: sizes_def)
qed

lemma can_satisfy_remaining_graph:
  assumes "symmetric_within district_adj unused"
  shows "can_satisfy_remaining unused district_adj remaining_sizes =
     (if remaining_sizes = [] then unused = []
      else (\<Sum>c \<in> components district_adj (set unused). int (card c)) = sum_list remaining_sizes \<and>
           (components district_adj (set unused) \<noteq> {} \<longrightarrow>
              Max (set remaining_sizes)
                \<le> Max ((\<lambda>c. int (card c)) ` components district_adj (set unused))))"
proof -
  define cs where "cs = find_components district_adj unused unused [] []"
  from symmetric_within_sym [OF assms] have "sym (edges_within district_adj (set unused))" .
  from find_components_all [OF this] have
    sets: "set ` set cs = components district_adj (set unused)" and
    dm: "distinct (map set cs)" and dc: "\<forall>c \<in> set cs. distinct c"
    by (simp_all add: cs_def)
  have len: "map (\<lambda>c. int (length c)) cs = map (\<lambda>S. int (card S)) (map set cs)"
    using dc by (simp add: distinct_card)
  have "sum_list (map (\<lambda>c. int (length c)) cs) = sum_list (map (\<lambda>S. int (card S)) (map set cs))"
    by (simp only: len)
  also have "\<dots> = (\<Sum>S \<in> set (map set cs). int (card S))"
    using dm by (rule sum_list_distinct_conv_sum_set)
  finally have sum: "sum_list (map (\<lambda>c. int (length c)) cs)
      = (\<Sum>c \<in> components district_adj (set unused). int (card c))"
    using sets by simp
  have "set (map (\<lambda>c. int (length c)) cs) = (\<lambda>S. int (card S)) ` set (map set cs)"
    by (simp only: len set_map)
  then have mx: "set (map (\<lambda>c. int (length c)) cs)
      = (\<lambda>c. int (card c)) ` components district_adj (set unused)"
    using sets by simp
  have ne: "(cs \<noteq> []) = (components district_adj (set unused) \<noteq> {})"
    using sets by (cases cs) auto
  show ?thesis
    unfolding can_satisfy_remaining_eq [of unused district_adj remaining_sizes]
    unfolding cs_def [symmetric] sum mx ne ..
qed

text \<open>
  C4. With no remaining sizes the check holds exactly when no district is unused.
  Otherwise, on an adjacency that is symmetric between the unused districts, it holds
  exactly when the sizes of the connected components of the unused districts add up to the
  sum of the remaining sizes and, if there is a component at all, the largest component is
  at least as large as the largest remaining size. When the remaining sizes are positive,
  as target sizes are, equal sums imply that there is a component, and the check holds
  exactly when the sums agree and some component is at least as large as the largest
  remaining size.
\<close>

theorem can_satisfy_remaining_components:
  assumes "symmetric_within district_adj unused"
  shows "can_satisfy_remaining unused district_adj remaining_sizes =
     (if remaining_sizes = [] then unused = []
      else (\<Sum>c \<in> components district_adj (set unused). int (card c)) = sum_list remaining_sizes \<and>
           (components district_adj (set unused) \<noteq> {} \<longrightarrow>
              Max (set remaining_sizes)
                \<le> Max ((\<lambda>c. int (card c)) ` components district_adj (set unused)))) \<and>
     ((\<forall>t \<in> set remaining_sizes. 0 < t) \<longrightarrow>
      can_satisfy_remaining unused district_adj remaining_sizes =
        (if remaining_sizes = [] then unused = []
         else (\<Sum>c \<in> components district_adj (set unused). int (card c))
                = sum_list remaining_sizes \<and>
              (\<exists>c \<in> components district_adj (set unused).
                 Max (set remaining_sizes) \<le> int (card c))))"
proof -
  define K where "K = components district_adj (set unused)"
  define total where "total = (\<Sum>c \<in> K. int (card c))"
  define m where "m = Max (set remaining_sizes)"
  have fin: "finite K" by (simp add: K_def components_def)
  have A: "can_satisfy_remaining unused district_adj remaining_sizes =
     (if remaining_sizes = [] then unused = []
      else total = sum_list remaining_sizes \<and>
           (K \<noteq> {} \<longrightarrow> m \<le> Max ((\<lambda>c. int (card c)) ` K)))"
    unfolding K_def total_def m_def by (rule can_satisfy_remaining_graph [OF assms])
  have B: "can_satisfy_remaining unused district_adj remaining_sizes =
        (if remaining_sizes = [] then unused = []
         else total = sum_list remaining_sizes \<and> (\<exists>c \<in> K. m \<le> int (card c)))"
    if pos: "\<forall>t \<in> set remaining_sizes. 0 < t"
  proof (cases "remaining_sizes = []")
    case True
    with A show ?thesis by simp
  next
    case False
    with pos have sum_pos: "0 < sum_list remaining_sizes"
      by (cases remaining_sizes) (auto intro: add_pos_nonneg sum_list_nonneg less_imp_le)
    show ?thesis
    proof (cases "K = {}")
      case True
      then have "total = 0" by (simp add: total_def)
      with sum_pos True False A show ?thesis by simp
    next
      case ne: False
      have "(m \<le> Max ((\<lambda>c. int (card c)) ` K)) = (\<exists>c \<in> K. m \<le> int (card c))"
        using fin ne by (subst Max_ge_iff) auto
      with ne False A show ?thesis by simp
    qed
  qed
  from A B show ?thesis unfolding K_def total_def m_def by blast
qed

theorem can_satisfy_remaining_components_witness:
  "symmetric_within chain4 [0, 1, 3] \<and>
   can_satisfy_remaining [0, 1, 3] chain4 [2, 1] \<and>
   (\<Sum>c \<in> components chain4 (set [0, 1, 3]). int (card c)) = 3 \<and>
   \<not> can_satisfy_remaining [0, 1, 3] chain4 [3]"
proof -
  have sym: "symmetric_within chain4 [0, 1, 3]" by code_simp
  have yes: "can_satisfy_remaining [0, 1, 3] chain4 [2, 1]" by code_simp
  have no: "\<not> can_satisfy_remaining [0, 1, 3] chain4 [3]" by code_simp
  from can_satisfy_remaining_components [OF sym, of "[2, 1]"] yes
  have "(\<Sum>c \<in> components chain4 (set [0, 1, 3]). int (card c)) = sum_list [2, 1]"
    by (simp del: set_simps Max_ge_iff)
  with sym yes no show ?thesis by simp
qed

section \<open>Properties of the adjacency lifter\<close>

lemma adj_add_dom: "dom (adj_add adj a b) = insert a (dom adj)"
  by (simp add: adj_add_def)

lemma insort_insert_not_Nil: "insort_insert x xs \<noteq> []"
  by (cases xs) (simp_all add: insort_insert_key_def)

lemma adj_add_nonempty:
  "(\<forall>d. adj d \<noteq> Some []) \<Longrightarrow> adj_add adj a b d \<noteq> Some []"
  by (simp add: adj_add_def insort_insert_not_Nil)

lemma lift_neighbors_dom:
  "lift_neighbors assignment my adj ns = Inr adj' \<Longrightarrow> map_of assignment p = Some my \<Longrightarrow>
   dom adj' = dom adj \<union> {d. \<exists>q \<in> set ns. crossing assignment d p q}"
proof (induction ns arbitrary: adj)
  case Nil
  then show ?case by simp
next
  case (Cons q ns)
  from Cons.prems(1) obtain dq where
    dq: "map_of assignment q = Some dq" and
    run: "lift_neighbors assignment my
            (if my \<noteq> dq then adj_add (adj_add adj my dq) dq my else adj) ns = Inr adj'"
    by (auto simp: subscript_def split: option.splits sum.splits)
  have here: "{d. crossing assignment d p q} = (if my \<noteq> dq then {my, dq} else {})"
    using dq Cons.prems(2) by (auto simp: crossing_def)
  have "dom adj' = dom (if my \<noteq> dq then adj_add (adj_add adj my dq) dq my else adj) \<union>
          {d. \<exists>q \<in> set ns. crossing assignment d p q}"
    by (rule Cons.IH [OF run Cons.prems(2)])
  also have "dom (if my \<noteq> dq then adj_add (adj_add adj my dq) dq my else adj) =
          dom adj \<union> {d. crossing assignment d p q}"
    unfolding here by (auto simp: adj_add_dom)
  finally show ?case by auto
qed

lemma lift_neighbors_nonempty:
  "lift_neighbors assignment my adj ns = Inr adj' \<Longrightarrow> \<forall>d. adj d \<noteq> Some [] \<Longrightarrow>
   adj' d \<noteq> Some []"
proof (induction ns arbitrary: adj)
  case Nil
  then show ?case by simp
next
  case (Cons q ns)
  from Cons.prems(1) obtain dq where
    run: "lift_neighbors assignment my
            (if my \<noteq> dq then adj_add (adj_add adj my dq) dq my else adj) ns = Inr adj'"
    by (auto simp: subscript_def split: option.splits sum.splits)
  have "\<forall>d. (if my \<noteq> dq then adj_add (adj_add adj my dq) dq my else adj) d \<noteq> Some []"
    using Cons.prems(2) by (simp add: adj_add_nonempty)
  from Cons.IH [OF run this] show ?case .
qed

lemma lift_precincts_dom:
  "lift_precincts precinct_adj assignment adj = Inr adj' \<Longrightarrow>
   dom adj' = dom adj \<union>
     {d. \<exists>(p, ns) \<in> set precinct_adj. \<exists>q \<in> set ns. crossing assignment d p q}"
proof (induction precinct_adj arbitrary: adj)
  case Nil
  then show ?case by simp
next
  case (Cons pn rest)
  obtain p ns where pn: "pn = (p, ns)" by (cases pn)
  from Cons.prems pn obtain my mid where
    my: "map_of assignment p = Some my" and
    inner: "lift_neighbors assignment my adj ns = Inr mid" and
    run: "lift_precincts rest assignment mid = Inr adj'"
    by (auto simp: subscript_def split: option.splits sum.splits)
  from Cons.IH [OF run] lift_neighbors_dom [OF inner my] pn show ?case by auto
qed

lemma lift_precincts_nonempty:
  "lift_precincts precinct_adj assignment adj = Inr adj' \<Longrightarrow> \<forall>d. adj d \<noteq> Some [] \<Longrightarrow>
   adj' d \<noteq> Some []"
proof (induction precinct_adj arbitrary: adj)
  case Nil
  then show ?case by simp
next
  case (Cons pn rest)
  obtain p ns where pn: "pn = (p, ns)" by (cases pn)
  from Cons.prems(1) pn obtain my mid where
    inner: "lift_neighbors assignment my adj ns = Inr mid" and
    run: "lift_precincts rest assignment mid = Inr adj'"
    by (auto simp: subscript_def split: option.splits sum.splits)
  have "\<forall>d. mid d \<noteq> Some []"
    using lift_neighbors_nonempty [OF inner Cons.prems(2)] by blast
  from Cons.IH [OF run this] show ?case .
qed

text \<open>The derived adjacency is symmetric, so it meets the premise under which the
  feasibility check is characterised.\<close>

lemma adj_get_adj_add_other: "x \<noteq> a \<Longrightarrow> adj_get (adj_add adj a b) x = adj_get adj x"
  by (simp add: adj_add_def adj_get_def)

lemma adj_get_adj_add_same: "adj_get (adj_add adj a b) a = insort_insert b (adj_get adj a)"
  by (simp add: adj_add_def adj_get_def)

lemma adj_get_adj_add:
  "set (adj_get (adj_add adj a b) x) =
     (if x = a then insert b (set (adj_get adj a)) else set (adj_get adj x))"
proof (cases "x = a")
  case True
  then show ?thesis by (simp add: adj_get_adj_add_same set_insort_insert)
next
  case False
  then show ?thesis by (simp add: adj_get_adj_add_other)
qed

lemma lift_neighbors_symmetric:
  "lift_neighbors assignment my adj ns = Inr adj' \<Longrightarrow>
   \<forall>a b. b \<in> set (adj_get adj a) \<longrightarrow> a \<in> set (adj_get adj b) \<Longrightarrow>
   \<forall>a b. b \<in> set (adj_get adj' a) \<longrightarrow> a \<in> set (adj_get adj' b)"
proof (induction ns arbitrary: adj)
  case Nil
  then show ?case by simp
next
  case (Cons q ns)
  from Cons.prems(1) obtain dq where
    run: "lift_neighbors assignment my
            (if my \<noteq> dq then adj_add (adj_add adj my dq) dq my else adj) ns = Inr adj'"
    by (auto simp: subscript_def split: option.splits sum.splits)
  have "\<forall>a b. b \<in> set (adj_get (if my \<noteq> dq then adj_add (adj_add adj my dq) dq my else adj) a)
      \<longrightarrow> a \<in> set (adj_get (if my \<noteq> dq then adj_add (adj_add adj my dq) dq my else adj) b)"
    using Cons.prems(2) by (auto simp: adj_get_adj_add split: if_splits)
  from Cons.IH [OF run this] show ?case .
qed

lemma lift_precincts_symmetric:
  "lift_precincts precinct_adj assignment adj = Inr adj' \<Longrightarrow>
   \<forall>a b. b \<in> set (adj_get adj a) \<longrightarrow> a \<in> set (adj_get adj b) \<Longrightarrow>
   \<forall>a b. b \<in> set (adj_get adj' a) \<longrightarrow> a \<in> set (adj_get adj' b)"
proof (induction precinct_adj arbitrary: adj)
  case Nil
  then show ?case by simp
next
  case (Cons pn rest)
  obtain p ns where pn: "pn = (p, ns)" by (cases pn)
  from Cons.prems(1) pn obtain my mid where
    inner: "lift_neighbors assignment my adj ns = Inr mid" and
    run: "lift_precincts rest assignment mid = Inr adj'"
    by (auto simp: subscript_def split: option.splits sum.splits)
  from Cons.IH [OF run lift_neighbors_symmetric [OF inner Cons.prems(2)]] show ?case .
qed

lemma build_district_adjacency_symmetric:
  assumes "build_district_adjacency precinct_adj assignment = Inr adj"
  shows "symmetric_within adj unused"
proof -
  from assms have run: "lift_precincts precinct_adj assignment Map.empty = Inr adj"
    by (simp add: build_district_adjacency_def)
  have "\<forall>a b. b \<in> set (adj_get Map.empty a) \<longrightarrow> a \<in> set (adj_get Map.empty b)"
    by (simp add: adj_get_def)
  from lift_precincts_symmetric [OF run this] show ?thesis
    by (simp add: symmetric_within_def)
qed

text \<open>
  C3, as the spec states it: a district without an edge to another district is a key of
  the derived adjacency, with the empty neighbour set. Two adjacent precincts that both
  lie in district 0 refute it: the derived adjacency has no key at all.
\<close>

theorem build_district_adjacency_isolated_counterexample:
  "\<not> isl (build_district_adjacency [(0, [1]), (1, [0])] [(0, 0), (1, 0)]) \<and>
   projr (build_district_adjacency [(0, [1]), (1, [0])] [(0, 0), (1, 0)]) 0 \<noteq> Some []"
  by (simp add: build_district_adjacency_def subscript_def)

text \<open>
  C3, amended: a district is a key of the derived adjacency exactly when some precinct of
  it is listed next to a precinct of another district, and then its neighbour set is not
  empty. A district without such an edge is therefore absent from the adjacency, and
  \<^verbatim>\<open>district_adj.get(d, set())\<close>, by which the adjacency is read, gives the empty set for it.
\<close>

theorem build_district_adjacency_isolated:
  assumes "build_district_adjacency precinct_adj assignment = Inr adj"
  shows "(adj d = None) =
           (\<not> (\<exists>(p, ns) \<in> set precinct_adj. \<exists>q \<in> set ns. crossing assignment d p q)) \<and>
         adj d \<noteq> Some [] \<and>
         (adj d = None \<longrightarrow> adj_get adj d = [])"
proof -
  from assms have run: "lift_precincts precinct_adj assignment Map.empty = Inr adj"
    by (simp add: build_district_adjacency_def)
  define P where
    "P = (\<exists>(p, ns) \<in> set precinct_adj. \<exists>q \<in> set ns. crossing assignment d p q)"
  have "dom adj =
          {d. \<exists>(p, ns) \<in> set precinct_adj. \<exists>q \<in> set ns. crossing assignment d p q}"
    using lift_precincts_dom [OF run] by simp
  then have "(d \<in> dom adj) = P"
    unfolding P_def by blast
  then have "(adj d = None) = (\<not> P)"
    by (auto simp: domIff)
  then have key: "(adj d = None) =
          (\<not> (\<exists>(p, ns) \<in> set precinct_adj. \<exists>q \<in> set ns. crossing assignment d p q))"
    unfolding P_def .
  have nonempty: "adj d \<noteq> Some []"
    by (rule lift_precincts_nonempty [OF run]) simp
  have "adj d = None \<longrightarrow> adj_get adj d = []"
    by (simp add: adj_get_def)
  with key nonempty show ?thesis by blast
qed

theorem build_district_adjacency_isolated_witness:
  "build_district_adjacency island_precinct_adj island_assignment = Inr island_district_adj \<and>
   island_district_adj 2 = None \<and> adj_get island_district_adj 2 = [] \<and>
   \<not> (\<exists>(p, ns) \<in> set island_precinct_adj. \<exists>q \<in> set ns. crossing island_assignment 2 p q)"
proof -
  have run: "build_district_adjacency island_precinct_adj island_assignment
      = Inr island_district_adj"
    by (simp add: build_district_adjacency_def subscript_def adj_add_def adj_get_def
        insort_insert_key_def fun_upd_twist island_precinct_adj_def island_assignment_def
        island_district_adj_def)
  have none: "island_district_adj 2 = None"
    by (simp add: island_district_adj_def)
  from build_district_adjacency_isolated [OF run, of 2] none run
  show ?thesis by simp
qed

section \<open>Properties of the aggregation\<close>

lemma map_precincts_dom:
  "map_precincts assignment d2s p2s = Inr p2s' \<Longrightarrow> dom p2s' = dom p2s \<union> fst ` set assignment"
proof (induction assignment arbitrary: p2s)
  case Nil
  then show ?case by simp
next
  case (Cons pd rest)
  obtain p d where pd: "pd = (p, d)" by (cases pd)
  from Cons.prems pd obtain s where
    "map_precincts rest d2s (p2s(p \<mapsto> s)) = Inr p2s'"
    by (auto split: option.splits)
  from Cons.IH [OF this] pd show ?case by auto
qed

lemma map_precincts_returns:
  "\<forall>(p, d) \<in> set assignment. d \<in> dom d2s \<Longrightarrow> \<exists>p2s'. map_precincts assignment d2s p2s = Inr p2s'"
proof (induction assignment arbitrary: p2s)
  case Nil
  then show ?case by simp
next
  case (Cons pd rest)
  obtain p d where pd: "pd = (p, d)" by (cases pd)
  from Cons.prems pd obtain s where s: "d2s d = Some s" by auto
  from Cons.prems have "\<forall>(p, d) \<in> set rest. d \<in> dom d2s" by simp
  from Cons.IH [OF this, of "p2s(p \<mapsto> s)"] obtain p2s' where
    "map_precincts rest d2s (p2s(p \<mapsto> s)) = Inr p2s'" by blast
  with pd s show ?case by simp
qed

lemma map_precincts_covered:
  "map_precincts assignment d2s p2s = Inr p2s' \<Longrightarrow> \<forall>(p, d) \<in> set assignment. d \<in> dom d2s"
proof (induction assignment arbitrary: p2s)
  case Nil
  then show ?case by simp
next
  case (Cons pd rest)
  obtain p d where pd: "pd = (p, d)" by (cases pd)
  from Cons.prems pd obtain s where s: "d2s d = Some s" and
    "map_precincts rest d2s (p2s(p \<mapsto> s)) = Inr p2s'"
    by (auto split: option.splits)
  from Cons.IH [OF this(2)] s pd show ?case by auto
qed

lemma map_precincts_raises:
  "map_precincts assignment d2s p2s = Inl e \<Longrightarrow>
   \<exists>(p, d) \<in> set assignment. d2s d = None \<and> e = KeyError d"
proof (induction assignment arbitrary: p2s)
  case Nil
  then show ?case by simp
next
  case (Cons pd rest)
  obtain p d where pd: "pd = (p, d)" by (cases pd)
  show ?case
  proof (cases "d2s d")
    case None
    with Cons.prems pd show ?thesis by simp
  next
    case (Some s)
    with Cons.prems pd have "map_precincts rest d2s (p2s(p \<mapsto> s)) = Inl e" by simp
    from Cons.IH [OF this] show ?thesis by auto
  qed
qed

lemma tally_update_sum:
  assumes "\<And>t. g (f t) = g t + (c :: int)" and "g tally0 = 0"
  shows "(\<Sum>e \<leftarrow> tally_update k f sd. g (snd e)) = (\<Sum>e \<leftarrow> sd. g (snd e)) + c"
  using assms by (induction sd) auto

lemma accumulate_sum:
  assumes "\<And>i r t. g (add_row i r t) = g t + h r" and "g tally0 = (0 :: int)"
  shows "(\<Sum>e \<leftarrow> accumulate gdf p2s sd. g (snd e)) =
         (\<Sum>e \<leftarrow> sd. g (snd e)) + (\<Sum>e \<leftarrow> filter (\<lambda>e. fst e \<in> dom p2s) gdf. h (snd e))"
proof (induction gdf arbitrary: sd)
  case Nil
  then show ?case by simp
next
  case (Cons ir rest)
  obtain i r where ir: "ir = (i, r)" by (cases ir)
  show ?case
  proof (cases "p2s i")
    case None
    with Cons.IH [of sd] ir show ?thesis by (simp add: domIff)
  next
    case (Some s)
    have "(\<Sum>e \<leftarrow> tally_update s (add_row i r) sd. g (snd e)) = (\<Sum>e \<leftarrow> sd. g (snd e)) + h r"
      by (rule tally_update_sum) (simp_all add: assms)
    with Cons.IH [of "tally_update s (add_row i r) sd"] ir Some show ?thesis
      by (simp add: domI)
  qed
qed

lemma accumulate_skip:
  "p2s idx = None \<Longrightarrow>
   accumulate (before @ (idx, row) # after) p2s sd = accumulate (before @ after) p2s sd"
proof (induction before arbitrary: sd)
  case Nil
  then show ?case by simp
next
  case (Cons ir before)
  obtain i r where ir: "ir = (i, r)" by (cases ir)
  with Cons show ?case by (simp split: option.splits)
qed

lemma summarize_fields:
  "population (snd (summarize fl e)) = t_population (snd e)"
  "dem_votes (snd (summarize fl e)) = t_dem_votes (snd e)"
  "rep_votes (snd (summarize fl e)) = t_rep_votes (snd e)"
  by (cases e; simp add: summarize_def Let_def)+

lemma add_row_fields:
  "t_population (add_row i r t) = t_population t + TOTPOP r"
  "t_dem_votes (add_row i r t) = t_dem_votes t + G24PREDHAR r"
  "t_rep_votes (add_row i r t) = t_rep_votes t + G24PRERTRU r"
  by (simp_all add: add_row_def)

lemma aggregate_sum:
  assumes agg: "aggregate_precincts_to_superdistricts fl gdf assignment d2s = Inr res"
    and g: "\<And>i r t. g (add_row i r t) = g t + h r" "g tally0 = (0 :: int)"
    and k: "\<And>e. k (snd (summarize fl e)) = g (snd e)"
  shows "(\<Sum>e \<leftarrow> res. k (snd e)) =
         (\<Sum>e \<leftarrow> filter (\<lambda>e. fst e \<in> fst ` set assignment) gdf. h (snd e))"
proof -
  from agg obtain p2s where
    p2s: "map_precincts assignment d2s Map.empty = Inr p2s" and
    res: "res = map (summarize fl) (accumulate gdf p2s [])"
    by (auto simp: aggregate_precincts_to_superdistricts_def split: sum.splits)
  from map_precincts_dom [OF p2s] have dom: "dom p2s = fst ` set assignment" by simp
  have "(\<Sum>e \<leftarrow> res. k (snd e)) = (\<Sum>e \<leftarrow> accumulate gdf p2s []. g (snd e))"
    unfolding res by (simp add: comp_def k)
  also have "\<dots> = (\<Sum>e \<leftarrow> filter (\<lambda>e. fst e \<in> dom p2s) gdf. h (snd e))"
    using accumulate_sum [where g = g and h = h and sd = "[]", OF g] by simp
  finally show ?thesis by (simp add: dom)
qed

text \<open>
  C6. When every row's label is a key of the baseline assignment and every assigned
  district is a key of the gluing result, the aggregation returns, and the populations,
  the party-A votes and the party-B votes of the super-district totals add up to those of
  the rows.
\<close>

theorem aggregate_preserves_sums:
  assumes "\<forall>(idx, row) \<in> set gdf. idx \<in> fst ` set assignment"
    and "\<forall>(p, d) \<in> set assignment. d \<in> dom district_to_super"
  shows "\<exists>res. aggregate_precincts_to_superdistricts fl gdf assignment district_to_super = Inr res \<and>
           (\<Sum>(sid, s) \<leftarrow> res. population s) = (\<Sum>(idx, row) \<leftarrow> gdf. TOTPOP row) \<and>
           (\<Sum>(sid, s) \<leftarrow> res. dem_votes s) = (\<Sum>(idx, row) \<leftarrow> gdf. G24PREDHAR row) \<and>
           (\<Sum>(sid, s) \<leftarrow> res. rep_votes s) = (\<Sum>(idx, row) \<leftarrow> gdf. G24PRERTRU row)"
proof -
  from map_precincts_returns [OF assms(2), of Map.empty] obtain p2s where
    "map_precincts assignment district_to_super Map.empty = Inr p2s" by blast
  then obtain res where
    agg: "aggregate_precincts_to_superdistricts fl gdf assignment district_to_super = Inr res"
    by (simp add: aggregate_precincts_to_superdistricts_def)
  from assms(1) have all: "filter (\<lambda>e. fst e \<in> fst ` set assignment) gdf = gdf"
    by (auto simp: filter_id_conv)
  have "(\<Sum>e \<leftarrow> res. population (snd e)) = (\<Sum>e \<leftarrow> gdf. TOTPOP (snd e))"
    using aggregate_sum [OF agg, of t_population TOTPOP population]
    by (simp add: add_row_fields summarize_fields tally0_def all)
  moreover have "(\<Sum>e \<leftarrow> res. dem_votes (snd e)) = (\<Sum>e \<leftarrow> gdf. G24PREDHAR (snd e))"
    using aggregate_sum [OF agg, of t_dem_votes G24PREDHAR dem_votes]
    by (simp add: add_row_fields summarize_fields tally0_def all)
  moreover have "(\<Sum>e \<leftarrow> res. rep_votes (snd e)) = (\<Sum>e \<leftarrow> gdf. G24PRERTRU (snd e))"
    using aggregate_sum [OF agg, of t_rep_votes G24PRERTRU rep_votes]
    by (simp add: add_row_fields summarize_fields tally0_def all)
  ultimately show ?thesis using agg by (simp add: case_prod_unfold)
qed

theorem aggregate_preserves_sums_witness:
  "\<exists>res. aggregate_precincts_to_superdistricts (\<lambda>x. x) two_districts_gdf [(0, 0), (1, 1)]
            [0 \<mapsto> 0, 1 \<mapsto> 0] = Inr res \<and>
     (\<Sum>(sid, s) \<leftarrow> res. population s) = 200 \<and>
     (\<Sum>(sid, s) \<leftarrow> res. dem_votes s) = 90 \<and>
     (\<Sum>(sid, s) \<leftarrow> res. rep_votes s) = 110"
  using aggregate_preserves_sums [of two_districts_gdf "[(0, 0), (1, 1)]" "[0 \<mapsto> 0, 1 \<mapsto> 0]"
      "\<lambda>x. x"]
  by (simp add: two_districts_gdf_def)

text \<open>
  C10. A row whose label is not a key of the baseline assignment changes nothing: the
  result, totals and precinct lists included, is the one computed without the row, and no
  error is raised on its account. The function fails only with the \<^verbatim>\<open>KeyError\<close> of a
  district that the assignment uses and the gluing result lacks, and it does fail whenever
  there is such a district.
\<close>

theorem aggregate_skips_unassigned:
  assumes "idx \<notin> fst ` set assignment"
  shows "aggregate_precincts_to_superdistricts fl (before @ (idx, row) # after) assignment d2s
           = aggregate_precincts_to_superdistricts fl (before @ after) assignment d2s \<and>
         (\<forall>e. aggregate_precincts_to_superdistricts fl (before @ (idx, row) # after) assignment d2s
                 = Inl e \<longrightarrow>
              (\<exists>(p, d) \<in> set assignment. d2s d = None \<and> e = KeyError d)) \<and>
         (isl (aggregate_precincts_to_superdistricts fl (before @ (idx, row) # after) assignment d2s)
           = (\<exists>(p, d) \<in> set assignment. d2s d = None))"
proof -
  let ?gdf = "before @ (idx, row) # after"
  have same: "aggregate_precincts_to_superdistricts fl ?gdf assignment d2s
           = aggregate_precincts_to_superdistricts fl (before @ after) assignment d2s"
  proof (cases "map_precincts assignment d2s Map.empty")
    case (Inl e)
    then show ?thesis by (simp add: aggregate_precincts_to_superdistricts_def)
  next
    case (Inr p2s)
    from map_precincts_dom [OF Inr] assms have "idx \<notin> dom p2s" by simp
    then have "p2s idx = None" by (simp only: domIff simp_thms)
    from accumulate_skip [of p2s idx, OF this] Inr show ?thesis
      by (simp add: aggregate_precincts_to_superdistricts_def)
  qed
  have err: "\<exists>(p, d) \<in> set assignment. d2s d = None \<and> e = KeyError d"
    if "aggregate_precincts_to_superdistricts fl ?gdf assignment d2s = Inl e" for e
  proof -
    from that have "map_precincts assignment d2s Map.empty = Inl e"
      by (simp add: aggregate_precincts_to_superdistricts_def split: sum.splits)
    then show ?thesis by (rule map_precincts_raises)
  qed
  have "isl (aggregate_precincts_to_superdistricts fl ?gdf assignment d2s)
           = (\<exists>(p, d) \<in> set assignment. d2s d = None)"
  proof (cases "\<exists>(p, d) \<in> set assignment. d2s d = None")
    case True
    have "\<not> (\<exists>p2s. map_precincts assignment d2s Map.empty = Inr p2s)"
    proof
      assume "\<exists>p2s. map_precincts assignment d2s Map.empty = Inr p2s"
      then obtain p2s where ok: "map_precincts assignment d2s Map.empty = Inr p2s" ..
      have "\<forall>(p, d) \<in> set assignment. d \<in> dom d2s"
        using ok by (rule map_precincts_covered)
      with True show False by (auto simp: domIff)
    qed
    then have "isl (map_precincts assignment d2s Map.empty)"
      by (cases "map_precincts assignment d2s Map.empty") auto
    then have "isl (aggregate_precincts_to_superdistricts fl ?gdf assignment d2s)"
      by (cases "map_precincts assignment d2s Map.empty")
        (auto simp: aggregate_precincts_to_superdistricts_def)
    with True show ?thesis by simp
  next
    case False
    then have "\<forall>(p, d) \<in> set assignment. d \<in> dom d2s" by (auto simp: domIff)
    from map_precincts_returns [OF this, of Map.empty] False show ?thesis
      by (auto simp: aggregate_precincts_to_superdistricts_def)
  qed
  with same err show ?thesis by blast
qed

theorem aggregate_skips_unassigned_witness:
  "aggregate_precincts_to_superdistricts (\<lambda>x. x)
     (take 1 two_districts_gdf @ (7, stray_row) # drop 1 two_districts_gdf)
     [(0, 0), (1, 1)] [0 \<mapsto> 0, 1 \<mapsto> 0]
   = aggregate_precincts_to_superdistricts (\<lambda>x. x)
     (take 1 two_districts_gdf @ drop 1 two_districts_gdf)
     [(0, 0), (1, 1)] [0 \<mapsto> 0, 1 \<mapsto> 0] \<and>
   \<not> isl (aggregate_precincts_to_superdistricts (\<lambda>x. x)
     (take 1 two_districts_gdf @ (7, stray_row) # drop 1 two_districts_gdf)
     [(0, 0), (1, 1)] [0 \<mapsto> 0, 1 \<mapsto> 0])"
proof -
  have absent: "(7 :: int) \<notin> fst ` set [(0, 0 :: int), (1, 1)]" by simp
  have covered: "\<not> (\<exists>(p, d) \<in> set [(0, 0 :: int), (1, 1 :: int)].
      [0 \<mapsto> 0, 1 \<mapsto> 0 :: int] d = None)" by simp
  from aggregate_skips_unassigned [OF absent, of "\<lambda>x. x" "take 1 two_districts_gdf"
      stray_row "drop 1 two_districts_gdf" "[0 \<mapsto> 0, 1 \<mapsto> 0]"] covered
  show ?thesis by blast
qed

section \<open>Properties of the seat allocation\<close>

lemma py_round_bounds:
  assumes "0 \<le> x" and "x \<le> of_int n"
  shows "0 \<le> py_round x \<and> py_round x \<le> n"
proof -
  have f0: "0 \<le> \<lfloor>x\<rfloor>" using assms(1) by simp
  have fn: "\<lfloor>x\<rfloor> \<le> n" using assms(2) by (simp add: floor_le_iff)
  have "\<lfloor>x\<rfloor> = n \<Longrightarrow> x - of_int \<lfloor>x\<rfloor> \<le> 0" using assms(2) by simp
  then have top: "\<not> x - of_int \<lfloor>x\<rfloor> < 1 / 2 \<Longrightarrow> \<lfloor>x\<rfloor> < n"
    using fn by (cases "\<lfloor>x\<rfloor> = n") auto
  show ?thesis
    unfolding py_round_def Let_def using f0 fn top by auto
qed

lemma py_round_half:
  "py_round (of_int k + 1 / 2) = (if even k then k else k + 1)"
proof -
  have "\<lfloor>of_int k + (1 / 2 :: real)\<rfloor> = k" by linarith
  then show ?thesis by (simp add: py_round_def Let_def)
qed

lemma allocate_seats_out:
  "allocate_seats_proportionally fl data target_sizes = Inr out \<Longrightarrow> (sid, a) \<in> set out \<Longrightarrow>
   \<exists>d seats. (sid, d) \<in> set data \<and> py_index target_sizes sid = Inr seats \<and>
     a = allocate_one fl seats d"
proof (induction data arbitrary: out)
  case Nil
  then show ?case by simp
next
  case (Cons p data)
  obtain i d0 where p: "p = (i, d0)" by (cases p)
  from Cons.prems(1) p obtain seats rest where
    idx: "py_index target_sizes i = Inr seats" and
    rest: "allocate_seats_proportionally fl data target_sizes = Inr rest" and
    out: "out = (i, allocate_one fl seats d0) # rest"
    by (auto split: sum.splits)
  show ?case
  proof (cases "(sid, a) \<in> set rest")
    case True
    from Cons.IH [OF rest True] show ?thesis by auto
  next
    case False
    with Cons.prems(2) out have "sid = i" "a = allocate_one fl seats d0" by auto
    with idx p show ?thesis by auto
  qed
qed

lemma allocate_seats_total:
  "\<forall>(sid, d) \<in> set data. 0 \<le> sid \<and> sid < int (length target_sizes) \<Longrightarrow>
   \<exists>out. allocate_seats_proportionally fl data target_sizes = Inr out \<and> map fst out = map fst data"
proof (induction data)
  case Nil
  then show ?case by simp
next
  case (Cons p data)
  obtain i d0 where p: "p = (i, d0)" by (cases p)
  from Cons.prems p have "0 \<le> i" "i < int (length target_sizes)" by auto
  then have idx: "py_index target_sizes i = Inr (target_sizes ! nat i)"
    by (simp add: py_index_def)
  from Cons obtain rest where
    "allocate_seats_proportionally fl data target_sizes = Inr rest" "map fst rest = map fst data"
    by auto
  with idx p show ?case by simp
qed

lemma allocate_one_seats:
  assumes "mono fl" and "fl 0 = 0" and "fl (of_int seats) = of_int seats"
    and "0 \<le> seats" and "0 \<le> dem_share d" and "dem_share d \<le> 1"
  shows "0 \<le> dem_seats (allocate_one fl seats d) \<and> 0 \<le> rep_seats (allocate_one fl seats d)"
proof -
  let ?x = "dem_share d * of_int seats"
  have lo: "0 \<le> ?x" using assms(4,5) by simp
  have hi: "?x \<le> of_int seats" using assms(4,5,6) by (simp add: mult_left_le_one_le)
  have "fl 0 \<le> fl ?x" using assms(1) lo by (rule monoD)
  moreover have "fl ?x \<le> fl (of_int seats)" using assms(1) hi by (rule monoD)
  ultimately have "0 \<le> fl ?x" "fl ?x \<le> of_int seats" using assms(2,3) by simp_all
  then have "0 \<le> py_round (fl ?x) \<and> py_round (fl ?x) \<le> seats" by (rule py_round_bounds)
  then show ?thesis by (simp add: allocate_one_def Let_def)
qed

text \<open>
  C7. Whenever every vote share lies in \<open>[0, 1]\<close>, every seat count is non-negative and
  every super-district id indexes \<open>target_sizes\<close>, the allocation returns, and in each
  returned record the seat count is \<open>target_sizes[super_id]\<close>, the two parties' seats add
  up to it exactly, and neither is negative. The rounding of floats enters only through
  its being monotone and exact at zero and at the seat counts.
\<close>

theorem allocate_seats_sum_and_sign:
  assumes "mono fl" and "fl 0 = 0"
    and "\<forall>t \<in> set target_sizes. 0 \<le> t \<and> fl (of_int t) = of_int t"
    and "\<forall>(sid, d) \<in> set data. 0 \<le> sid \<and> sid < int (length target_sizes) \<and>
           0 \<le> dem_share d \<and> dem_share d \<le> 1"
  shows "\<exists>out. allocate_seats_proportionally fl data target_sizes = Inr out \<and>
           map fst out = map fst data \<and>
           (\<forall>(sid, a) \<in> set out.
              total_seats a = target_sizes ! nat sid \<and>
              dem_seats a + rep_seats a = total_seats a \<and>
              0 \<le> dem_seats a \<and> 0 \<le> rep_seats a)"
proof -
  from assms(4) have "\<forall>(sid, d) \<in> set data. 0 \<le> sid \<and> sid < int (length target_sizes)"
    by auto
  from allocate_seats_total [OF this] obtain out where
    out: "allocate_seats_proportionally fl data target_sizes = Inr out"
      "map fst out = map fst data"
    by blast
  have "total_seats a = target_sizes ! nat sid \<and> dem_seats a + rep_seats a = total_seats a \<and>
        0 \<le> dem_seats a \<and> 0 \<le> rep_seats a" if mem: "(sid, a) \<in> set out" for sid a
  proof -
    from allocate_seats_out [OF out(1) mem] obtain d seats where
      d: "(sid, d) \<in> set data" and idx: "py_index target_sizes sid = Inr seats" and
      a: "a = allocate_one fl seats d"
      by blast
    from d assms(4) have rng: "0 \<le> sid" "sid < int (length target_sizes)"
      and share: "0 \<le> dem_share d" "dem_share d \<le> 1" by auto
    from rng idx have seats: "seats = target_sizes ! nat sid" by (simp add: py_index_def)
    from rng have "target_sizes ! nat sid \<in> set target_sizes" by simp
    with assms(3) seats have s0: "0 \<le> seats" and sfl: "fl (of_int seats) = of_int seats"
      by auto
    from allocate_one_seats [OF assms(1,2) sfl s0 share] a
    have "0 \<le> dem_seats a \<and> 0 \<le> rep_seats a" by simp
    moreover have "total_seats a = seats" "dem_seats a + rep_seats a = total_seats a"
      using a by (simp_all add: allocate_one_def Let_def)
    ultimately show ?thesis using seats by simp
  qed
  with out show ?thesis by blast
qed

theorem allocate_seats_sum_and_sign_witness:
  "\<exists>out. allocate_seats_proportionally (\<lambda>x. x)
      [(0, \<lparr> superdistrict_id = 0, dem_votes = 90, rep_votes = 110, population = 200,
              dem_share = 9 / 20, num_precincts = 2, precincts = [0, 1] \<rparr>)] [3] = Inr out \<and>
     map fst out = [0] \<and>
     (\<forall>(sid, a) \<in> set out.
        total_seats a = [3] ! nat sid \<and> dem_seats a + rep_seats a = total_seats a \<and>
        0 \<le> dem_seats a \<and> 0 \<le> rep_seats a)"
  using allocate_seats_sum_and_sign [of "\<lambda>x. x" "[3]"
      "[(0, \<lparr> superdistrict_id = 0, dem_votes = 90, rep_votes = 110, population = 200,
              dem_share = 9 / 20, num_precincts = 2, precincts = [0, 1] \<rparr>)]"]
  by (simp add: mono_def)

text \<open>
  C9. When the float product of vote share and seat count is exactly \<open>k + 1/2\<close>, the
  party-A seats are the even one of \<open>k\<close> and \<open>k + 1\<close>: \<^verbatim>\<open>round\<close> breaks the tie towards the
  even integer. A share of one half gives 2 of 5 seats and 2 of 3 seats.
\<close>

theorem allocate_seats_half_to_even:
  assumes "allocate_seats_proportionally fl data target_sizes = Inr out"
    and "(sid, a) \<in> set out"
    and "fl (a_dem_share a * of_int (total_seats a)) = of_int k + 1 / 2"
  shows "dem_seats a = (if even k then k else k + 1)"
proof -
  from allocate_seats_out [OF assms(1,2)] obtain d seats where
    a: "a = allocate_one fl seats d" by blast
  then have "dem_seats a = py_round (fl (a_dem_share a * of_int (total_seats a)))"
    by (simp add: allocate_one_def Let_def)
  with assms(3) show ?thesis by (simp only: py_round_half)
qed

theorem allocate_seats_half_to_even_witness:
  "allocate_seats_proportionally (\<lambda>x. x) half_share_data [5, 3] = Inr half_share_out \<and>
   dem_seats (snd (half_share_out ! 0)) = 2 \<and> dem_seats (snd (half_share_out ! 1)) = 2"
proof -
  have run: "allocate_seats_proportionally (\<lambda>x. x) half_share_data [5, 3] = Inr half_share_out"
    by (simp add: half_share_data_def half_share_out_def py_index_def allocate_one_def
        py_round_def Let_def)
  have m0: "(0, snd (half_share_out ! 0)) \<in> set half_share_out"
    and m1: "(1, snd (half_share_out ! 1)) \<in> set half_share_out"
    by (simp_all add: half_share_out_def)
  have t0: "(\<lambda>x. x) (a_dem_share (snd (half_share_out ! 0)) *
              of_int (total_seats (snd (half_share_out ! 0)))) = of_int 2 + 1 / 2"
    and t1: "(\<lambda>x. x) (a_dem_share (snd (half_share_out ! 1)) *
              of_int (total_seats (snd (half_share_out ! 1)))) = of_int 1 + 1 / 2"
    by (simp_all add: half_share_out_def)
  from allocate_seats_half_to_even [OF run m0 t0] allocate_seats_half_to_even [OF run m1 t1] run
  show ?thesis by simp
qed

end
